theory Spec2Isabelle
  imports Main "HOL-Library.Sublist" "HOL-Library.Word"
begin

section \<open>Data model\<close>

text \<open>
  \<^verbatim>\<open>tls.Config\<close> of Go's standard library, restricted to the two fields that
  \<^verbatim>\<open>mysqlTLSConfig\<close> writes (every other field keeps its zero value). A certificate
  pool is the list of certificates appended to it; \<^verbatim>\<open>nil\<close> is \<open>None\<close>.
\<close>

record tlsConfig =
  InsecureSkipVerify :: bool
  RootCAs :: "string list option"

text \<open>\<^verbatim>\<open>types.MysqlConfig\<close> (pkg/types/main.go).\<close>

record MysqlConfig =
  Name :: string
  User :: string
  Pass :: string
  Host :: string
  Port :: string
  TLS :: bool
  TLSConfig :: "tlsConfig option"

text \<open>
  Go's \<^verbatim>\<open>int\<close> and \<^verbatim>\<open>time.Duration\<close> are signed 64-bit integers whose arithmetic wraps
  around. The parameter \<^verbatim>\<open>tries\<close> is a \<open>64 word\<close>, read as a signed number by \<open>sint\<close>.
  The values computed from it are kept as \<open>int\<close>, with the wrap-around written out:
  \<open>int64 x\<close> is the 64-bit two's complement value that the machine keeps of the exact
  result \<open>x\<close>.
\<close>

definition int64 :: "int \<Rightarrow> int" where
  "int64 x = (x + 9223372036854775808) mod 18446744073709551616 - 9223372036854775808"

text \<open>\<^verbatim>\<open>time.Second\<close>, in nanoseconds.\<close>

definition Second :: int where
  "Second = 1000000000"

section \<open>One-shot mode: \<^verbatim>\<open>CheckConnections\<close>\<close>

text \<open>
  What one goroutine of \<^verbatim>\<open>CheckConnections\<close> does, in program order: a call of
  \<^verbatim>\<open>CheckConnection(cfg)\<close>, the line written to standard error after a failed attempt
  (with the arguments of its \<^verbatim>\<open>Fprintf\<close>: host, port, name, \<^verbatim>\<open>i\<close>, \<^verbatim>\<open>tries\<close>, \<^verbatim>\<open>sleepS\<close>,
  error), the pause \<^verbatim>\<open>time.Sleep(sleep)\<close> with its duration in nanoseconds, and the line
  written to standard output.
\<close>

datatype event =
    Probe MysqlConfig
  | Stderr string string string int int int string
  | Sleep int
  | Stdout string

text \<open>
  The loop \<^verbatim>\<open>for i = 1; i <= tries; i += 1\<close> of the goroutine. The state is the counter
  \<open>i\<close>, the number \<open>n\<close> of the call of \<^verbatim>\<open>CheckConnection\<close> about to be made (counted
  from 1, without bound) and the events so far. The outcome of call number \<open>n\<close> is given by
  \<open>probe n\<close>: \<open>None\<close> for \<^verbatim>\<open>nil\<close>, \<open>Some err\<close> for an error with that text. In an
  iteration \<^verbatim>\<open>sleepS := 3*i + 1\<close> and \<^verbatim>\<open>sleep := time.Duration(sleepS) * time.Second\<close> are
  computed in 64 bits, and so is \<^verbatim>\<open>i += 1\<close>. The loop need not end: with
  \<open>tries = 2\<^sup>6\<^sup>3 - 1\<close> the test \<^verbatim>\<open>i <= tries\<close> never fails. The result is \<open>None\<close> when
  the loop never ends, and otherwise the value of \<open>i\<close> when it is left and the events.
\<close>

partial_function (option) retryLoop ::
  "MysqlConfig \<Rightarrow> 64 word \<Rightarrow> (int \<Rightarrow> string option) \<Rightarrow> int \<Rightarrow> int \<Rightarrow> event list \<Rightarrow>
   (int \<times> event list) option"
where
  "retryLoop cfg tries probe i n evs =
     (if i \<le> sint tries then
        (case probe n of
           Some err \<Rightarrow>
             retryLoop cfg tries probe (int64 (i + 1)) (n + 1)
               (evs @ [Probe cfg,
                       Stderr (Host cfg) (Port cfg) (Name cfg) i (sint tries) (int64 (3 * i + 1)) err,
                       Sleep (int64 (int64 (3 * i + 1) * Second))])
         | None \<Rightarrow> Some (i, evs @ [Probe cfg, Stdout ''Connect success'']))
      else Some (i, evs))"

text \<open>
  The text of the error built at line 35,
  \<^verbatim>\<open>fmt.Errorf("[%s:%s/%s] connection attempts have failed", cfg.Host, cfg.Name, cfg.Port)\<close>.
\<close>

definition attemptsFailed :: "MysqlConfig \<Rightarrow> string" where
  "attemptsFailed cfg =
     ''['' @ Host cfg @ '':'' @ Name cfg @ ''/'' @ Port cfg @ ''] connection attempts have failed''"

text \<open>
  One goroutine, from \<^verbatim>\<open>i := 1\<close> to its send on \<^verbatim>\<open>errChan\<close>: the final value of \<open>i\<close>,
  the events, and the value sent (\<open>None\<close> for \<^verbatim>\<open>nil\<close>). The test \<^verbatim>\<open>i == tries+1\<close> is made
  in 64 bits. A goroutine whose loop never ends gives \<open>None\<close>: it sends nothing.
\<close>

record runner =
  lastI :: int
  events :: "event list"
  sent :: "string option"

definition goroutine :: "MysqlConfig \<Rightarrow> 64 word \<Rightarrow> (int \<Rightarrow> string option) \<Rightarrow> runner option" where
  "goroutine cfg tries probe =
     (case retryLoop cfg tries probe 1 1 [] of
        None \<Rightarrow> None
      | Some (i, evs) \<Rightarrow>
          Some \<lparr>lastI = i, events = evs,
                sent = (if i = int64 (sint tries + 1) then Some (attemptsFailed cfg) else None)\<rparr>)"

fun isProbe :: "event \<Rightarrow> bool" where
  "isProbe (Probe c) = True"
| "isProbe e = False"

fun isStderr :: "event \<Rightarrow> bool" where
  "isStderr (Stderr h p n i t s err) = True"
| "isStderr e = False"

fun sleepOf :: "event \<Rightarrow> int list" where
  "sleepOf (Sleep d) = [d]"
| "sleepOf e = []"

text \<open>
  The number of calls of \<^verbatim>\<open>CheckConnection\<close>, the lines written to standard error and the
  durations of the pauses, in a list of events.
\<close>

definition probeCalls :: "event list \<Rightarrow> nat" where
  "probeCalls evs = length (filter isProbe evs)"

definition reports :: "event list \<Rightarrow> event list" where
  "reports evs = filter isStderr evs"

definition sleeps :: "event list \<Rightarrow> int list" where
  "sleeps evs = concat (map sleepOf evs)"

text \<open>
  The receiving loop \<^verbatim>\<open>for range config { if err := <-errChan; err != nil { return err } }\<close>.
  The first argument counts the iterations left, the second is what the channel still has
  to deliver, in delivery order, the third counts the receives done. A receive from a
  channel that delivers nothing more never returns: \<open>Blocked\<close>.
\<close>

datatype result = Returned "string option" | Blocked

fun receive :: "nat \<Rightarrow> string option list \<Rightarrow> nat \<Rightarrow> result \<times> nat" where
  "receive 0 ch n = (Returned None, n)"
| "receive (Suc k) [] n = (Blocked, n)"
| "receive (Suc k) (Some err # ch) n = (Returned (Some err), Suc n)"
| "receive (Suc k) (None # ch) n = receive k ch (Suc n)"

text \<open>
  \<^verbatim>\<open>CheckConnections(config, tries)\<close>. One goroutine is launched per element of \<open>config\<close>;
  goroutine \<open>k\<close> gets its probe outcomes from \<open>probes k\<close>. The goroutines run
  concurrently, so the order in which their sends reach the channel is not fixed by the
  program: \<open>order\<close> lists the goroutines in the order in which they come to their send,
  and a goroutine that never comes to it puts nothing on the channel. The channel has room
  for \<open>length config\<close> values, so no send waits for the receiver.
\<close>

record checked =
  launched :: "runner option list"
  outcome :: result
  receives :: nat

definition launch ::
  "MysqlConfig list \<Rightarrow> 64 word \<Rightarrow> (nat \<Rightarrow> int \<Rightarrow> string option) \<Rightarrow> runner option list" where
  "launch config tries probes =
     map (\<lambda>k. goroutine (config ! k) tries (probes k)) [0..<length config]"

fun send :: "runner option \<Rightarrow> string option list" where
  "send None = []"
| "send (Some r) = [sent r]"

definition CheckConnections ::
  "MysqlConfig list \<Rightarrow> 64 word \<Rightarrow> (nat \<Rightarrow> int \<Rightarrow> string option) \<Rightarrow> nat list \<Rightarrow> checked" where
  "CheckConnections config tries probes order =
     (let rs = launch config tries probes;
          errChan = concat (map (\<lambda>k. send (rs ! k)) order)
      in case receive (length config) errChan 0 of
           (res, n) \<Rightarrow> \<lparr>launched = rs, outcome = res, receives = n\<rparr>)"

text \<open>Every goroutine occurs exactly once in \<open>order\<close>, a permutation of the indices.\<close>

definition delivery :: "MysqlConfig list \<Rightarrow> nat list \<Rightarrow> bool" where
  "delivery config order \<longleftrightarrow> distinct order \<and> set order = {0..<length config}"

text \<open>
  The events of the iteration in which \<open>i\<close> is both the counter and the number of the
  call: the call, and then either the report and the pause, or the success line. The line
  that iteration writes to standard error, if any.
\<close>

definition attempt :: "MysqlConfig \<Rightarrow> 64 word \<Rightarrow> (int \<Rightarrow> string option) \<Rightarrow> int \<Rightarrow> event list" where
  "attempt cfg tries probe i =
     (case probe i of
        Some err \<Rightarrow>
          [Probe cfg,
           Stderr (Host cfg) (Port cfg) (Name cfg) i (sint tries) (int64 (3 * i + 1)) err,
           Sleep (int64 (int64 (3 * i + 1) * Second))]
      | None \<Rightarrow> [Probe cfg, Stdout ''Connect success''])"

definition report :: "MysqlConfig \<Rightarrow> 64 word \<Rightarrow> (int \<Rightarrow> string option) \<Rightarrow> int \<Rightarrow> event list" where
  "report cfg tries probe i =
     (case probe i of
        Some err \<Rightarrow>
          [Stderr (Host cfg) (Port cfg) (Name cfg) i (sint tries) (int64 (3 * i + 1)) err]
      | None \<Rightarrow> [])"

subsection \<open>Concrete inputs\<close>

text \<open>The two targets of \<^verbatim>\<open>ExampleNewMultiMySQLExporter\<close>.\<close>

definition db1 :: MysqlConfig where
  "db1 = \<lparr>Name = ''db1'', User = ''root'', Pass = ''password'', Host = ''localhost'',
          Port = ''3306'', TLS = False, TLSConfig = None\<rparr>"

definition db2 :: MysqlConfig where
  "db2 = \<lparr>Name = ''db2'', User = ''root'', Pass = ''password'', Host = ''localhost'',
          Port = ''3307'', TLS = False, TLSConfig = None\<rparr>"

text \<open>A target on which every attempt fails with the same error.\<close>

definition unreachable :: "string \<Rightarrow> int \<Rightarrow> string option" where
  "unreachable reason i = Some reason"

text \<open>A target that refuses connections before attempt \<open>k\<close> and answers from then on.\<close>

definition upFrom :: "int \<Rightarrow> int \<Rightarrow> string option" where
  "upFrom k i =
     (if i < k then Some ''error getting tables: dial tcp: connection refused'' else None)"

text \<open>Target 0 never answers in time; every other target answers at once.\<close>

definition firstDown :: "nat \<Rightarrow> int \<Rightarrow> string option" where
  "firstDown k = (if k = 0 then unreachable ''error getting tables: i/o timeout'' else upFrom 1)"

text \<open>
  Target 0 refuses every connection at once; every other target lets each attempt run into
  the deadline of five seconds. With one try, goroutine 0 sends its error after its pause
  of four seconds, when the others are still inside their first call.
\<close>

definition refusedThenSlow :: "nat \<Rightarrow> int \<Rightarrow> string option" where
  "refusedThenSlow k =
     (if k = 0 then unreachable ''error getting tables: dial tcp: connection refused''
      else unreachable ''error getting tables: context deadline exceeded'')"

section \<open>TLS material and the probe\<close>

text \<open>
  \<^verbatim>\<open>AppendCertsFromPEM\<close> of \<^verbatim>\<open>crypto/x509\<close>: it appends the certificates found in the
  PEM data to the pool and reports whether it found any. The decoding of PEM data is the
  library's; it is the parameter \<open>decode\<close>.
\<close>

definition AppendCertsFromPEM ::
  "(string \<Rightarrow> string list) \<Rightarrow> string list \<Rightarrow> string \<Rightarrow> string list \<times> bool" where
  "AppendCertsFromPEM decode pool pem = (pool @ decode pem, decode pem \<noteq> [])"

text \<open>
  \<^verbatim>\<open>mysqlTLSConfig(capath, reader)\<close>. The reader returns the file's content (\<open>Inr\<close>) or
  an error (\<open>Inl\<close>). The function returns the configuration (\<open>Inr\<close>), or ends the
  process (\<open>Inl\<close>) with a line on standard error and the exit status 1.
\<close>

definition mysqlTLSConfig ::
  "(string \<Rightarrow> string list) \<Rightarrow> string \<Rightarrow> (string \<Rightarrow> string + string) \<Rightarrow>
   (string \<times> int) + tlsConfig" where
  "mysqlTLSConfig decode capath reader =
     (let tlsConfig = \<lparr>InsecureSkipVerify = True, RootCAs = None\<rparr>;
          rootCertPool = []
      in case reader capath of
           Inl err \<Rightarrow> Inl (''Error reading CA file: '' @ err, 1)
         | Inr pem \<Rightarrow>
             (case AppendCertsFromPEM decode rootCertPool pem of
                (pool, ok) \<Rightarrow>
                  if \<not> ok then Inl (''Error appending CA cert'', 1)
                  else Inr (tlsConfig\<lparr>RootCAs := Some pool\<rparr>)))"

text \<open>
  \<^verbatim>\<open>CheckConnection(config)\<close>. The MySQL driver and the server are outside the program:
  \<open>RegisterTLSConfig\<close> is the driver's registration of a TLS configuration under a name,
  \<open>Open\<close> is \<^verbatim>\<open>sql.Open("mysql", dsn)\<close> and \<open>ShowTables\<close> is \<^verbatim>\<open>getSQLTables\<close> on the
  opened handle; each gives \<open>None\<close> for \<^verbatim>\<open>nil\<close> or the text of its error.
\<close>

record driver =
  RegisterTLSConfig :: "string \<Rightarrow> tlsConfig option \<Rightarrow> string option"
  Open :: "string \<Rightarrow> string option"
  ShowTables :: "string \<Rightarrow> string option"

definition connect :: "driver \<Rightarrow> string \<Rightarrow> string option" where
  "connect drv connectString =
     (case Open drv connectString of
        Some err \<Rightarrow> Some (''error connect: '' @ err)
      | None \<Rightarrow>
          (case ShowTables drv connectString of
             Some err \<Rightarrow> Some (''error getting tables: '' @ err)
           | None \<Rightarrow> None))"

definition CheckConnection :: "driver \<Rightarrow> MysqlConfig \<Rightarrow> string option" where
  "CheckConnection drv config =
     (let connectString =
            User config @ '':'' @ Pass config @ ''@tcp('' @ Host config @ '':'' @ Port config @
            '')/'' @ Name config
      in if TLS config then
           (let tlsConfigName = ''custom-tls-'' @ Host config @ ''-'' @ Name config
            in case RegisterTLSConfig drv tlsConfigName (TLSConfig config) of
                 Some err \<Rightarrow> Some (''cannot register TLS config for MySQL connection: '' @ err)
               | None \<Rightarrow> connect drv (connectString @ ''?tls='' @ tlsConfigName))
         else connect drv connectString)"

text \<open>A reader that knows one file, and a decoder that finds one certificate in it.\<close>

definition caFile :: "string \<Rightarrow> string + string" where
  "caFile path =
     (if path = ''/etc/ssl/certs/ca-certificates.crt'' then Inr ''PEM of the private CA''
      else Inl ''no such file or directory'')"

definition oneCertificate :: "string \<Rightarrow> string list" where
  "oneCertificate pem = (if pem = ''PEM of the private CA'' then [''private CA''] else [])"

section \<open>Exporter mode: \<^verbatim>\<open>MultiMySQLExporter\<close>\<close>

text \<open>
  The label values of a gauge, \<^verbatim>\<open>prometheus.Labels{"host", "port", "database"}\<close>, built
  from a target in \<^verbatim>\<open>performChecks\<close>.
\<close>

type_synonym labels = "string \<times> string \<times> string"

definition labelsOf :: "MysqlConfig \<Rightarrow> labels" where
  "labelsOf cfg = (Host cfg, Port cfg, Name cfg)"

text \<open>
  A \<^verbatim>\<open>GaugeVec\<close> holds one gauge per label values: \<^verbatim>\<open>Reset\<close> deletes them all,
  \<^verbatim>\<open>With(labels).Set(v)\<close> creates or overwrites one, \<^verbatim>\<open>Collect\<close> reads them all. Beside
  its value each gauge carries, for the proofs only, the number of the
  \<^verbatim>\<open>performChecks\<close> call that set it. The availability is 0 or 1; the duration is kept
  as the measured \<^verbatim>\<open>time.Duration\<close> (the gauge holds its seconds).
\<close>

type_synonym gaugeVec = "labels \<rightharpoonup> int \<times> nat"

text \<open>
  \<^verbatim>\<open>sync.RWMutex\<close>: held by one writer, or by any number of readers, or free. The readers
  holding it are kept as the set of their thread numbers.
\<close>

record rwmutex =
  writer :: bool
  readers :: "nat set"

record MultiMySQLExporter =
  configs :: "MysqlConfig list"
  availabilityMetric :: gaugeVec
  durationMetric :: gaugeVec
  checkInterval :: int
  mu :: rwmutex
  cancelled :: bool

text \<open>\<^verbatim>\<open>NewMultiMySQLExporter(configs, checkInterval)\<close>; \<open>cancelled\<close> is the state of \<^verbatim>\<open>ctx\<close>.\<close>

definition NewMultiMySQLExporter :: "MysqlConfig list \<Rightarrow> int \<Rightarrow> MultiMySQLExporter" where
  "NewMultiMySQLExporter cfgs interval =
     \<lparr>configs = cfgs,
      availabilityMetric = Map.empty,
      durationMetric = Map.empty,
      checkInterval = (if interval = 0 then 30 * Second else interval),
      mu = \<lparr>writer = False, readers = {}\<rparr>,
      cancelled = False\<rparr>"

subsection \<open>The threads\<close>

text \<open>
  Where the caller of \<^verbatim>\<open>Start\<close> and the goroutine spawned by it are: \<^verbatim>\<open>Start\<close> not yet
  called; inside the call \<^verbatim>\<open>e.performChecks()\<close> of \<^verbatim>\<open>Start\<close>; goroutine spawned and
  \<^verbatim>\<open>Start\<close> returned; goroutine in its \<^verbatim>\<open>select\<close> loop; goroutine returned; process
  ended by the panic of \<^verbatim>\<open>time.NewTicker\<close> on an interval that is not positive.
\<close>

datatype phase = NotStarted | FirstCycle | Spawned | Ticking | Exited | Crashed

text \<open>
  Where the thread that runs \<^verbatim>\<open>performChecks\<close> is: outside; at \<^verbatim>\<open>e.mu.Lock()\<close>; lock
  held; first \<^verbatim>\<open>Reset\<close> done; second \<^verbatim>\<open>Reset\<close> done; goroutines launched, at
  \<^verbatim>\<open>wg.Wait()\<close>.
\<close>

datatype checker = Outside | AtLock | Locked | AvailabilityReset | DurationReset | Waiting

text \<open>
  Where one goroutine of \<^verbatim>\<open>performChecks\<close> is: launched; \<^verbatim>\<open>CheckConnection\<close> returned
  (with its error and the measured duration); availability set; duration set and
  \<^verbatim>\<open>wg.Done()\<close> called.
\<close>

datatype worker = Launched | Checked "string option" int | AvailabilitySet int | Finished

text \<open>
  Where one caller of \<^verbatim>\<open>Collect\<close> is: outside; read lock held; availability gauges read;
  both read. The flag says whether \<^verbatim>\<open>Start\<close> had returned when the read lock was taken.
\<close>

datatype collector = Away | Holding bool | Half bool gaugeVec | Full

text \<open>What one call of \<^verbatim>\<open>Collect\<close> has sent to its channel.\<close>

record scrape =
  afterStart :: bool
  availabilitySeen :: gaugeVec
  durationSeen :: gaugeVec

text \<open>
  The exporter and its threads. \<open>begun\<close> counts the calls of \<^verbatim>\<open>performChecks\<close> that have
  taken the lock, \<open>finished\<close> those that have returned; \<open>scrapes\<close> lists what the
  calls of \<^verbatim>\<open>Collect\<close> have read so far.
\<close>

record system = MultiMySQLExporter +
  phase :: phase
  checker :: checker
  workers :: "worker list"
  collectors :: "nat \<Rightarrow> collector"
  begun :: nat
  finished :: nat
  scrapes :: "scrape list"

definition boot :: "MysqlConfig list \<Rightarrow> int \<Rightarrow> system" where
  "boot cfgs interval =
     (let e = NewMultiMySQLExporter cfgs interval
      in \<lparr>configs = configs e,
          availabilityMetric = availabilityMetric e,
          durationMetric = durationMetric e,
          checkInterval = checkInterval e,
          mu = mu e,
          cancelled = cancelled e,
          phase = NotStarted,
          checker = Outside,
          workers = [],
          collectors = (\<lambda>r. Away),
          begun = 0,
          finished = 0,
          scrapes = []\<rparr>)"

text \<open>
  One step of one thread. The probe's answer (error and duration) comes with the step
  that ends the call of \<^verbatim>\<open>CheckConnection\<close>.
\<close>

datatype action =
    CallStart
  | Lock
  | ResetAvailability
  | ResetDuration
  | Launch
  | CheckConnectionReturns nat "string option" int
  | SetAvailability nat
  | SetDuration nat
  | Unlock
  | SpawnLoop
  | NewTicker
  | Tick
  | CtxDone
  | Stop
  | RLock nat
  | CollectAvailability nat
  | CollectDuration nat
  | RUnlock nat

definition started :: "system \<Rightarrow> bool" where
  "started s \<longleftrightarrow> phase s = Spawned \<or> phase s = Ticking \<or> phase s = Exited"

fun step :: "action \<Rightarrow> system \<Rightarrow> system option" where
  "step CallStart s =
     (if phase s = NotStarted then Some (s\<lparr>phase := FirstCycle, checker := AtLock\<rparr>) else None)"
| "step Lock s =
     (if checker s = AtLock \<and> \<not> writer (mu s) \<and> readers (mu s) = {}
      then Some (s\<lparr>mu := (mu s)\<lparr>writer := True\<rparr>, checker := Locked, begun := Suc (begun s)\<rparr>)
      else None)"
| "step ResetAvailability s =
     (if checker s = Locked
      then Some (s\<lparr>availabilityMetric := Map.empty, checker := AvailabilityReset\<rparr>)
      else None)"
| "step ResetDuration s =
     (if checker s = AvailabilityReset
      then Some (s\<lparr>durationMetric := Map.empty, checker := DurationReset\<rparr>)
      else None)"
| "step Launch s =
     (if checker s = DurationReset
      then Some (s\<lparr>workers := map (\<lambda>cfg. Launched) (configs s), checker := Waiting\<rparr>)
      else None)"
| "step (CheckConnectionReturns k err duration) s =
     (if checker s = Waiting \<and> k < length (workers s) \<and> workers s ! k = Launched
      then Some (s\<lparr>workers := (workers s)[k := Checked err duration]\<rparr>)
      else None)"
| "step (SetAvailability k) s =
     (if checker s = Waiting \<and> k < length (workers s) then
        (case workers s ! k of
           Checked err duration \<Rightarrow>
             Some (s\<lparr>availabilityMetric :=
                        (availabilityMetric s)
                          (labelsOf (configs s ! k) \<mapsto> (if err \<noteq> None then 0 else 1, begun s)),
                      workers := (workers s)[k := AvailabilitySet duration]\<rparr>)
         | _ \<Rightarrow> None)
      else None)"
| "step (SetDuration k) s =
     (if checker s = Waiting \<and> k < length (workers s) then
        (case workers s ! k of
           AvailabilitySet duration \<Rightarrow>
             Some (s\<lparr>durationMetric :=
                        (durationMetric s)(labelsOf (configs s ! k) \<mapsto> (duration, begun s)),
                      workers := (workers s)[k := Finished]\<rparr>)
         | _ \<Rightarrow> None)
      else None)"
| "step Unlock s =
     (if checker s = Waiting \<and> (\<forall>w\<in>set (workers s). w = Finished)
      then Some (s\<lparr>mu := (mu s)\<lparr>writer := False\<rparr>, checker := Outside, finished := begun s\<rparr>)
      else None)"
| "step SpawnLoop s =
     (if phase s = FirstCycle \<and> checker s = Outside then Some (s\<lparr>phase := Spawned\<rparr>) else None)"
| "step NewTicker s =
     (if phase s = Spawned
      then Some (s\<lparr>phase := (if checkInterval s \<le> 0 then Crashed else Ticking)\<rparr>)
      else None)"
| "step Tick s =
     (if phase s = Ticking \<and> checker s = Outside then Some (s\<lparr>checker := AtLock\<rparr>) else None)"
| "step CtxDone s =
     (if phase s = Ticking \<and> checker s = Outside \<and> cancelled s
      then Some (s\<lparr>phase := Exited\<rparr>) else None)"
| "step Stop s = Some (s\<lparr>cancelled := True\<rparr>)"
| "step (RLock r) s =
     (if collectors s r = Away \<and> \<not> writer (mu s)
      then Some (s\<lparr>mu := (mu s)\<lparr>readers := insert r (readers (mu s))\<rparr>,
                   collectors := (collectors s)(r := Holding (started s))\<rparr>)
      else None)"
| "step (CollectAvailability r) s =
     (case collectors s r of
        Holding b \<Rightarrow> Some (s\<lparr>collectors := (collectors s)(r := Half b (availabilityMetric s))\<rparr>)
      | _ \<Rightarrow> None)"
| "step (CollectDuration r) s =
     (case collectors s r of
        Half b seen \<Rightarrow>
          Some (s\<lparr>collectors := (collectors s)(r := Full),
                  scrapes := scrapes s @
                    [\<lparr>afterStart = b, availabilitySeen = seen, durationSeen = durationMetric s\<rparr>]\<rparr>)
      | _ \<Rightarrow> None)"
| "step (RUnlock r) s =
     (if collectors s r = Full
      then Some (s\<lparr>mu := (mu s)\<lparr>readers := readers (mu s) - {r}\<rparr>,
                   collectors := (collectors s)(r := Away)\<rparr>)
      else None)"

text \<open>
  A run of the system under a schedule, the list of the steps in the order in which
  they happen. A step that its thread cannot take in the state reached, and any step after
  the process has ended, makes the schedule impossible: \<open>None\<close>.
\<close>

fun run :: "action list \<Rightarrow> system \<Rightarrow> system option" where
  "run [] s = Some s"
| "run (a # as) s =
     (if phase s = Crashed then None
      else case step a s of None \<Rightarrow> None | Some s' \<Rightarrow> run as s')"

subsection \<open>What holds in every state of a run\<close>

text \<open>Every gauge of the vector was set by the call of \<^verbatim>\<open>performChecks\<close> number \<open>c\<close>.\<close>

definition setBy :: "gaugeVec \<Rightarrow> nat \<Rightarrow> bool" where
  "setBy g c \<longleftrightarrow> (\<forall>l v t. g l = Some (v, t) \<longrightarrow> t = c)"

text \<open>The label values of the configured targets.\<close>

definition targets :: "system \<Rightarrow> labels set" where
  "targets s = labelsOf ` set (configs s)"

text \<open>
  The lock: the writer is the thread inside \<^verbatim>\<open>performChecks\<close>, the readers are the
  threads inside \<^verbatim>\<open>Collect\<close>, and they exclude each other.
\<close>

definition lockInv :: "system \<Rightarrow> bool" where
  "lockInv s \<longleftrightarrow>
     (writer (mu s) \<longleftrightarrow> checker s \<noteq> Outside \<and> checker s \<noteq> AtLock) \<and>
     (writer (mu s) \<longrightarrow> readers (mu s) = {}) \<and>
     (\<forall>r. r \<in> readers (mu s) \<longleftrightarrow> collectors s r \<noteq> Away) \<and>
     begun s = (if writer (mu s) then Suc (finished s) else finished s)"

text \<open>
  The gauges between two calls of \<^verbatim>\<open>performChecks\<close>: all set by the last call that
  returned, one per target; none before the first call.
\<close>

definition published :: "system \<Rightarrow> bool" where
  "published s \<longleftrightarrow>
     setBy (availabilityMetric s) (finished s) \<and>
     setBy (durationMetric s) (finished s) \<and>
     (if finished s = 0
      then availabilityMetric s = Map.empty \<and> durationMetric s = Map.empty
      else dom (availabilityMetric s) = targets s \<and> dom (durationMetric s) = targets s)"

fun availabilityDone :: "worker \<Rightarrow> bool" where
  "availabilityDone (AvailabilitySet d) = True"
| "availabilityDone Finished = True"
| "availabilityDone w = False"

text \<open>
  The gauges while the goroutines of a call work: all set by this call, the availability
  of the targets whose goroutine has set it, the duration of those whose goroutine has
  finished.
\<close>

definition working :: "system \<Rightarrow> bool" where
  "working s \<longleftrightarrow>
     length (workers s) = length (configs s) \<and>
     setBy (availabilityMetric s) (begun s) \<and>
     setBy (durationMetric s) (begun s) \<and>
     dom (availabilityMetric s) =
       {labelsOf (configs s ! k) |k. k < length (workers s) \<and> availabilityDone (workers s ! k)} \<and>
     dom (durationMetric s) =
       {labelsOf (configs s ! k) |k. k < length (workers s) \<and> workers s ! k = Finished}"

definition gaugeInv :: "system \<Rightarrow> bool" where
  "gaugeInv s \<longleftrightarrow>
     (checker s = Outside \<or> checker s = AtLock \<longrightarrow> published s) \<and>
     (checker s = AvailabilityReset \<longrightarrow> availabilityMetric s = Map.empty) \<and>
     (checker s = DurationReset \<longrightarrow>
        availabilityMetric s = Map.empty \<and> durationMetric s = Map.empty) \<and>
     (checker s = Waiting \<longrightarrow> working s)"

text \<open>\<^verbatim>\<open>Start\<close> returns, and the loop runs, only after a call of \<^verbatim>\<open>performChecks\<close> has returned.\<close>

definition phaseInv :: "system \<Rightarrow> bool" where
  "phaseInv s \<longleftrightarrow>
     (phase s = NotStarted \<longrightarrow> checker s = Outside \<and> finished s = 0) \<and>
     (phase s = FirstCycle \<and> checker s = Outside \<longrightarrow> 1 \<le> finished s) \<and>
     (phase s \<noteq> NotStarted \<and> phase s \<noteq> FirstCycle \<longrightarrow> 1 \<le> finished s)"

fun collectorInv :: "system \<Rightarrow> collector \<Rightarrow> bool" where
  "collectorInv s (Holding b) = (b \<longrightarrow> 1 \<le> finished s)"
| "collectorInv s (Half b seen) = ((b \<longrightarrow> 1 \<le> finished s) \<and> seen = availabilityMetric s)"
| "collectorInv s c = True"

text \<open>
  What a call of \<^verbatim>\<open>Collect\<close> has read: the gauges as one call of \<^verbatim>\<open>performChecks\<close> that
  had returned left them, set by that call and one per target in both vectors; or, before
  the first call had returned, nothing.
\<close>

definition scrapeInv :: "system \<Rightarrow> scrape \<Rightarrow> bool" where
  "scrapeInv s sc \<longleftrightarrow>
     (\<exists>c\<le>finished s.
        setBy (availabilitySeen sc) c \<and> setBy (durationSeen sc) c \<and>
        (if c = 0
         then availabilitySeen sc = Map.empty \<and> durationSeen sc = Map.empty
         else dom (availabilitySeen sc) = targets s \<and> dom (durationSeen sc) = targets s)) \<and>
     (afterStart sc \<longrightarrow>
        dom (availabilitySeen sc) = targets s \<and> dom (durationSeen sc) = targets s)"

definition Inv :: "system \<Rightarrow> bool" where
  "Inv s \<longleftrightarrow>
     lockInv s \<and> gaugeInv s \<and> phaseInv s \<and>
     (\<forall>r. collectorInv s (collectors s r)) \<and>
     (\<forall>sc\<in>set (scrapes s). scrapeInv s sc)"

subsection \<open>Concrete schedules\<close>

text \<open>
  The call of \<^verbatim>\<open>performChecks\<close> made by \<^verbatim>\<open>Start\<close> on two targets, the second of which
  answers first while the first one refuses the connection, up to the spawning of the loop.
\<close>

definition firstCycle :: "action list" where
  "firstCycle =
     [CallStart, Lock, ResetAvailability, ResetDuration, Launch,
      CheckConnectionReturns 1 None 2000000,
      CheckConnectionReturns 0 (Some ''error getting tables: dial tcp: connection refused'') 1000000,
      SetAvailability 0, SetAvailability 1, SetDuration 1, SetDuration 0,
      Unlock, SpawnLoop]"

text \<open>
  After it, one call of \<^verbatim>\<open>Collect\<close> during which the ticker fires: the loop's call of
  \<^verbatim>\<open>performChecks\<close> gets the lock only when \<^verbatim>\<open>Collect\<close> has released it.
\<close>

definition scrapeAcrossTick :: "action list" where
  "scrapeAcrossTick =
     firstCycle @ [RLock 0, CollectAvailability 0, NewTicker, Tick, CollectDuration 0, RUnlock 0, Lock]"

text \<open>The start of a call of \<^verbatim>\<open>performChecks\<close>, up to the launch of its goroutines.\<close>

definition untilProbes :: "action list" where
  "untilProbes = [CallStart, Lock, ResetAvailability, ResetDuration, Launch]"

section \<open>Properties of the one-shot mode\<close>

lemmas scenario_defs =
  db1_def db2_def unreachable_def upFrom_def firstDown_def refusedThenSlow_def

subsection \<open>64-bit arithmetic\<close>

text \<open>Within the range of a signed 64-bit integer nothing wraps around.\<close>

lemma int64_id: "- 9223372036854775808 \<le> x \<Longrightarrow> x < 9223372036854775808 \<Longrightarrow> int64 x = x"
  by (simp add: int64_def)

lemma sint_tries_range: "- 9223372036854775808 \<le> sint (t :: 64 word) \<and> sint t < 9223372036854775808"
  using sint_ge [of t] sint_lt [of t] by simp

lemma sint_zero_iff: "sint (t :: 64 word) = 0 \<longleftrightarrow> t = 0"
  by (simp add: signed_eq_0_iff)

text \<open>
  Up to attempt 3074457345 the pause of attempt \<open>j\<close> is \<open>3 * j + 1\<close> seconds; from
  attempt 3074457346 on the product with \<^verbatim>\<open>time.Second\<close> exceeds 64 bits.
\<close>

lemma pause_exact:
  assumes "0 \<le> j" and "j \<le> 3074457345"
  shows "int64 (int64 (3 * j + 1) * Second) = (3 * j + 1) * Second"
proof -
  have "int64 (3 * j + 1) = 3 * j + 1" using assms by (intro int64_id) linarith+
  moreover have "int64 ((3 * j + 1) * Second) = (3 * j + 1) * Second"
    using assms unfolding Second_def by (intro int64_id) (simp_all add: algebra_simps)
  ultimately show ?thesis by simp
qed

text \<open>The bound is sharp: the pause of attempt 3074457346 does not fit in 64 bits.\<close>

lemma pause_wraps: "int64 (int64 (3 * 3074457346 + 1) * Second) = - 9223372034709551616"
  by (simp add: int64_def Second_def)

subsection \<open>The retry loop\<close>

text \<open>
  While the attempts fail the loop goes on, adding the events of each iteration: from
  iteration \<open>i\<close> it reaches iteration \<open>k\<close> when everything in between fails and the
  counter does not wrap around on the way.
\<close>

lemma retryLoop_failing:
  assumes "\<forall>j. i \<le> j \<and> j < k \<longrightarrow> probe j \<noteq> None" and "1 \<le> i" and "i \<le> k"
    and "k \<le> sint tries + 1" and "k < 9223372036854775808"
  shows "retryLoop cfg tries probe i i evs =
         retryLoop cfg tries probe k k (evs @ concat (map (attempt cfg tries probe) [i..k - 1]))"
  using assms
proof (induction "nat (k - i)" arbitrary: i evs)
  case 0
  then have "i = k" by simp
  then show ?case by simp
next
  case (Suc n)
  then have lt: "i < k" and le: "i \<le> sint tries" by linarith+
  from Suc.prems lt obtain err where e: "probe i = Some err" by auto
  have n: "n = nat (k - (i + 1))" using Suc.hyps(2) by linarith
  have rest: "\<forall>j. i + 1 \<le> j \<and> j < k \<longrightarrow> probe j \<noteq> None" using Suc.prems(1) by simp
  have up: "[i..k - 1] = i # [i + 1..k - 1]" using lt by (simp add: upto_rec1)
  have nowrap: "int64 (i + 1) = i + 1" using Suc.prems(2,5) lt by (intro int64_id) linarith+
  have "retryLoop cfg tries probe i i evs =
        retryLoop cfg tries probe (i + 1) (i + 1) (evs @ attempt cfg tries probe i)"
    using le e nowrap by (subst retryLoop.simps) (simp add: attempt_def)
  also have "\<dots> = retryLoop cfg tries probe k k
       ((evs @ attempt cfg tries probe i) @ concat (map (attempt cfg tries probe) [i + 1..k - 1]))"
    using Suc.hyps(1) [OF n rest] lt Suc.prems(2,4,5) by simp
  finally show ?case by (simp add: up)
qed

lemma probeCalls_attempts:
  "probeCalls (concat (map (attempt cfg tries probe) [i..k])) = nat (k + 1 - i)"
proof (induction "nat (k + 1 - i)" arbitrary: i)
  case 0
  then show ?case by (simp add: probeCalls_def)
next
  case (Suc n)
  then have le: "i \<le> k" by linarith
  have n: "n = nat (k + 1 - (i + 1))" using Suc.hyps(2) by linarith
  have one: "probeCalls (attempt cfg tries probe i) = 1"
    by (simp add: probeCalls_def attempt_def split: option.split)
  have "probeCalls (concat (map (attempt cfg tries probe) [i..k])) =
        probeCalls (attempt cfg tries probe i) +
        probeCalls (concat (map (attempt cfg tries probe) [i + 1..k]))"
    using le by (simp add: upto_rec1 probeCalls_def)
  then show ?case using Suc.hyps(1) [OF n] one le by simp
qed

lemma sleeps_failing:
  "\<forall>j. i \<le> j \<and> j \<le> k \<longrightarrow> probe j \<noteq> None \<Longrightarrow>
   sleeps (concat (map (attempt cfg tries probe) [i..k])) =
   map (\<lambda>j. int64 (int64 (3 * j + 1) * Second)) [i..k]"
proof (induction "nat (k + 1 - i)" arbitrary: i)
  case 0
  then show ?case by (simp add: sleeps_def)
next
  case (Suc n)
  then have le: "i \<le> k" by linarith
  have n: "n = nat (k + 1 - (i + 1))" using Suc.hyps(2) by linarith
  from Suc.prems le obtain err where e: "probe i = Some err" by auto
  have rest: "\<forall>j. i + 1 \<le> j \<and> j \<le> k \<longrightarrow> probe j \<noteq> None" using Suc.prems by simp
  have "sleeps (concat (map (attempt cfg tries probe) [i..k])) =
        sleeps (attempt cfg tries probe i) @
        sleeps (concat (map (attempt cfg tries probe) [i + 1..k]))"
    using le by (simp add: upto_rec1 sleeps_def)
  moreover have "sleeps (attempt cfg tries probe i) = [int64 (int64 (3 * i + 1) * Second)]"
    using e by (simp add: sleeps_def attempt_def)
  ultimately show ?case using Suc.hyps(1) [OF n rest] le by (simp add: upto_rec1)
qed

lemma reports_attempts:
  "reports (concat (map (attempt cfg tries probe) [i..k])) =
   concat (map (\<lambda>j. reports (attempt cfg tries probe j)) [i..k])"
  by (simp add: reports_def filter_concat comp_def)

lemma reports_attempt: "reports (attempt cfg tries probe j) = report cfg tries probe j"
  by (simp add: reports_def attempt_def report_def split: option.split)

lemma retryLoop_success:
  assumes "1 \<le> k" and "k \<le> sint tries" and "\<forall>j. 1 \<le> j \<and> j < k \<longrightarrow> probe j \<noteq> None"
    and "probe k = None"
  shows "retryLoop cfg tries probe 1 1 [] = Some (k, concat (map (attempt cfg tries probe) [1..k]))"
proof -
  have k: "k < 9223372036854775808" using assms(2) sint_tries_range [of tries] by linarith
  have "retryLoop cfg tries probe 1 1 [] =
        retryLoop cfg tries probe k k ([] @ concat (map (attempt cfg tries probe) [1..k - 1]))"
    using assms k by (intro retryLoop_failing) auto
  also have "\<dots> =
        Some (k, concat (map (attempt cfg tries probe) [1..k - 1]) @ attempt cfg tries probe k)"
    using assms(2,4) by (subst retryLoop.simps) (simp add: attempt_def)
  also have "concat (map (attempt cfg tries probe) [1..k - 1]) @ attempt cfg tries probe k =
             concat (map (attempt cfg tries probe) [1..k])"
    using assms(1) by (simp add: upto_rec2)
  finally show ?thesis .
qed

lemma retryLoop_exhausted:
  assumes "0 \<le> sint tries" and "sint tries < 9223372036854775807"
    and "\<forall>j. 1 \<le> j \<and> j \<le> sint tries \<longrightarrow> probe j \<noteq> None"
  shows "retryLoop cfg tries probe 1 1 [] =
         Some (sint tries + 1, concat (map (attempt cfg tries probe) [1..sint tries]))"
proof -
  have "retryLoop cfg tries probe 1 1 [] =
        retryLoop cfg tries probe (sint tries + 1) (sint tries + 1)
          ([] @ concat (map (attempt cfg tries probe) [1..sint tries + 1 - 1]))"
    using assms by (intro retryLoop_failing) auto
  also have "\<dots> = Some (sint tries + 1, concat (map (attempt cfg tries probe) [1..sint tries]))"
    by (subst retryLoop.simps) simp
  finally show ?thesis .
qed

lemma retryLoop_no_tries: "sint tries < 1 \<Longrightarrow> retryLoop cfg tries probe 1 1 [] = Some (1, [])"
  by (subst retryLoop.simps) simp

lemma goroutine_no_tries:
  assumes "sint tries < 1"
  shows "goroutine cfg tries probe =
     Some \<lparr>lastI = 1, events = [], sent = (if tries = 0 then Some (attemptsFailed cfg) else None)\<rparr>"
proof -
  have "int64 (sint tries + 1) = sint tries + 1"
    using assms sint_tries_range [of tries] by (intro int64_id) linarith+
  then have "(1 = int64 (sint tries + 1)) = (tries = 0)" by (simp add: sint_zero_iff)
  then show ?thesis by (simp add: goroutine_def retryLoop_no_tries [OF assms])
qed

lemma retryLoop_returns:
  assumes "sint tries < 9223372036854775807" and "1 \<le> i" and "i \<le> sint tries + 1"
  shows "retryLoop cfg tries probe i n evs \<noteq> None"
  using assms(2,3)
proof (induction "nat (sint tries + 1 - i)" arbitrary: i n evs)
  case 0
  then have "\<not> i \<le> sint tries" by linarith
  then show ?case by (subst retryLoop.simps) simp
next
  case (Suc m)
  then have le: "i \<le> sint tries" by linarith
  have nowrap: "int64 (i + 1) = i + 1" using Suc.prems le assms(1) by (intro int64_id) linarith+
  have m: "m = nat (sint tries + 1 - (i + 1))" using Suc.hyps(2) by linarith
  show ?case
  proof (cases "probe n")
    case None
    then show ?thesis using le by (subst retryLoop.simps) simp
  next
    case (Some err)
    have "retryLoop cfg tries probe (i + 1) (n + 1)
            (evs @ [Probe cfg,
                    Stderr (Host cfg) (Port cfg) (Name cfg) i (sint tries) (int64 (3 * i + 1)) err,
                    Sleep (int64 (int64 (3 * i + 1) * Second))]) \<noteq> None"
      using Suc.prems le by (intro Suc.hyps(1) [OF m]) linarith+
    then show ?thesis using le Some nowrap by (subst retryLoop.simps) simp
  qed
qed

lemma goroutine_returns:
  assumes "sint tries < 9223372036854775807"
  shows "goroutine cfg tries probe \<noteq> None"
proof (cases "1 \<le> sint tries + 1")
  case True
  then have "retryLoop cfg tries probe 1 1 [] \<noteq> None"
    using assms by (intro retryLoop_returns) simp_all
  then show ?thesis by (auto simp: goroutine_def split: option.splits)
next
  case False
  then have "sint tries < 1" by simp
  then show ?thesis by (simp add: goroutine_no_tries)
qed

text \<open>
  C5. A target that fails its first \<open>k - 1\<close> attempts and answers at attempt \<open>k\<close>, with
  \<open>1 \<le> k \<le> tries\<close>, and \<open>k \<le> 3074457346\<close> so that no pause exceeds 64 bits of
  nanoseconds: the goroutine returns, leaves the loop with \<open>i = k\<close>, has called
  \<^verbatim>\<open>CheckConnection\<close> exactly \<open>k\<close> times, sends \<^verbatim>\<open>nil\<close>, and has slept exactly \<open>k - 1\<close>
  times, the \<open>i\<close>-th time for \<open>3 * i + 1\<close> seconds.
\<close>

theorem goroutine_stops_at_first_success:
  assumes "1 \<le> k" and "k \<le> sint tries" and "k \<le> 3074457346"
    and "\<forall>j. 1 \<le> j \<and> j < k \<longrightarrow> probe j \<noteq> None" and "probe k = None"
  shows "\<exists>r. goroutine cfg tries probe = Some r \<and>
             lastI r = k \<and>
             sent r = None \<and>
             probeCalls (events r) = nat k \<and>
             sleeps (events r) = map (\<lambda>i. (3 * i + 1) * Second) [1..k - 1]"
proof -
  define evs where "evs = concat (map (attempt cfg tries probe) [1..k])"
  have loop: "retryLoop cfg tries probe 1 1 [] = Some (k, evs)"
    unfolding evs_def by (rule retryLoop_success [OF assms(1,2,4,5)])
  have "k \<noteq> int64 (sint tries + 1)"
  proof (cases "sint tries + 1 < 9223372036854775808")
    case True
    then have "int64 (sint tries + 1) = sint tries + 1"
      using assms(1,2) by (intro int64_id) linarith+
    then show ?thesis using assms(2) by simp
  next
    case False
    then have "sint tries + 1 = 9223372036854775808"
      using sint_tries_range [of tries] by linarith
    then show ?thesis using assms(1) by (simp add: int64_def)
  qed
  then have g: "goroutine cfg tries probe = Some \<lparr>lastI = k, events = evs, sent = None\<rparr>"
    by (simp add: goroutine_def loop)
  have ev: "evs = concat (map (attempt cfg tries probe) [1..k - 1]) @ attempt cfg tries probe k"
    using assms(1) by (simp add: evs_def upto_rec2)
  have sl: "sleeps (attempt cfg tries probe k) = []"
    using assms(5) by (simp add: sleeps_def attempt_def)
  have "sleeps evs = sleeps (concat (map (attempt cfg tries probe) [1..k - 1])) @
                     sleeps (attempt cfg tries probe k)"
    unfolding ev by (simp add: sleeps_def)
  then have "sleeps evs = map (\<lambda>j. int64 (int64 (3 * j + 1) * Second)) [1..k - 1]"
    using sleeps_failing [of 1 "k - 1" probe cfg tries] assms(4) sl by simp
  also have "\<dots> = map (\<lambda>i. (3 * i + 1) * Second) [1..k - 1]"
    using assms(3) by (intro map_cong refl pause_exact) auto
  finally have s: "sleeps evs = map (\<lambda>i. (3 * i + 1) * Second) [1..k - 1]" .
  have p: "probeCalls evs = nat k"
    using probeCalls_attempts [of cfg tries probe 1 k] by (simp add: evs_def)
  show ?thesis using g s p by simp
qed

text \<open>
  The theorem at \<open>tries = 5\<close> and a target that answers at the third attempt: three calls,
  pauses of 4 and 7 seconds.
\<close>

theorem goroutine_stops_at_first_success_witness:
  "\<exists>r. goroutine db1 5 (upFrom 3) = Some r \<and> lastI r = 3 \<and> sent r = None \<and>
       probeCalls (events r) = 3 \<and> sleeps (events r) = [4 * Second, 7 * Second]"
proof -
  have h: "\<forall>j. 1 \<le> j \<and> j < 3 \<longrightarrow> upFrom 3 j \<noteq> None" by (simp add: upFrom_def)
  have s: "upFrom 3 3 = None" by (simp add: upFrom_def)
  have u: "[1..(2::int)] = [1, 2]" by (simp add: upto_rec1)
  show ?thesis
    using goroutine_stops_at_first_success [of 3 5 "upFrom 3" db1, OF _ _ _ h s]
    by (simp add: u)
qed

text \<open>
  C4, as the code has it. A target whose every attempt fails, for \<open>0 \<le> tries < 2\<^sup>6\<^sup>3 - 1\<close>
  (at \<open>tries = 2\<^sup>6\<^sup>3 - 1\<close> the loop never ends): the goroutine returns, leaves the
  loop with \<open>i = tries + 1\<close>, has called \<^verbatim>\<open>CheckConnection\<close> exactly \<open>tries\<close> times, has
  written one line to standard error per failed attempt, with the error of that attempt,
  and sends the error whose text \<open>attemptsFailed cfg\<close> is built from the target's host,
  name and port alone: the error of the last attempt is not in it.
\<close>

theorem goroutine_exhausts_tries:
  assumes "0 \<le> sint tries" and "sint tries < 9223372036854775807"
    and "\<forall>j. 1 \<le> j \<and> j \<le> sint tries \<longrightarrow> probe j \<noteq> None"
  shows "\<exists>r. goroutine cfg tries probe = Some r \<and>
             lastI r = sint tries + 1 \<and>
             probeCalls (events r) = nat (sint tries) \<and>
             reports (events r) = concat (map (report cfg tries probe) [1..sint tries]) \<and>
             length (reports (events r)) = nat (sint tries) \<and>
             sent r = Some (attemptsFailed cfg)"
proof -
  define evs where "evs = concat (map (attempt cfg tries probe) [1..sint tries])"
  have loop: "retryLoop cfg tries probe 1 1 [] = Some (sint tries + 1, evs)"
    unfolding evs_def by (rule retryLoop_exhausted [OF assms])
  have "int64 (sint tries + 1) = sint tries + 1"
    using assms(1,2) by (intro int64_id) linarith+
  then have g: "goroutine cfg tries probe =
                  Some \<lparr>lastI = sint tries + 1, events = evs, sent = Some (attemptsFailed cfg)\<rparr>"
    by (simp add: goroutine_def loop)
  have p: "probeCalls evs = nat (sint tries)"
    using probeCalls_attempts [of cfg tries probe 1 "sint tries"] by (simp add: evs_def)
  have r: "reports evs = concat (map (report cfg tries probe) [1..sint tries])"
    by (simp add: evs_def reports_attempts reports_attempt)
  have one: "length (report cfg tries probe j) = 1" if "j \<in> set [1..sint tries]" for j
    using that assms(3) by (auto simp: report_def)
  have "length (concat (map (report cfg tries probe) [1..sint tries])) =
        sum_list (map (\<lambda>j. 1) [1..sint tries])"
    unfolding length_concat map_map comp_def using one by (intro arg_cong [of _ _ sum_list] map_cong) auto
  then have l: "length (reports evs) = nat (sint tries)"
    using assms(1) by (simp add: r sum_list_triv)
  show ?thesis using g p r l by simp
qed

text \<open>The theorem at \<open>tries = 2\<close>.\<close>

theorem goroutine_exhausts_tries_witness:
  "\<exists>r. goroutine db1 2 (unreachable ''context deadline exceeded'') = Some r \<and>
       probeCalls (events r) = 2 \<and>
       reports (events r) =
         [Stderr ''localhost'' ''3306'' ''db1'' 1 2 4 ''context deadline exceeded'',
          Stderr ''localhost'' ''3306'' ''db1'' 2 2 7 ''context deadline exceeded''] \<and>
       sent r = Some (attemptsFailed db1)"
proof -
  have h: "\<forall>j. 1 \<le> j \<and> j \<le> sint (2 :: 64 word) \<longrightarrow>
             unreachable ''context deadline exceeded'' j \<noteq> None"
    by (simp add: unreachable_def)
  have u: "[1..(2::int)] = [1, 2]" by (simp add: upto_rec1)
  show ?thesis
    using goroutine_exhausts_tries [of 2 "unreachable ''context deadline exceeded''" db1, OF _ _ h]
    by (auto simp: u report_def unreachable_def db1_def int64_def)
qed

text \<open>
  C4, as the claim has it, fails: both attempts on \<open>db1\<close> end in an i/o timeout, and the
  error sent is the fixed sentence about \<open>db1\<close>, in which the timeout does not occur.
\<close>

theorem goroutine_failure_without_reason_counterexample:
  "map_option sent (goroutine db1 2 (unreachable ''error getting tables: i/o timeout'')) =
     Some (Some ''[localhost:db1/3306] connection attempts have failed'') \<and>
   \<not> sublist ''i/o timeout'' ''[localhost:db1/3306] connection attempts have failed''"
  by (simp add: goroutine_def retryLoop.simps scenario_defs attemptsFailed_def sublist_code
      int64_def)

subsection \<open>The receiving loop\<close>

lemma receive_all_None:
  "k \<le> length ch \<Longrightarrow> \<forall>q<k. ch ! q = None \<Longrightarrow> receive k ch n = (Returned None, n + k)"
proof (induction k ch n rule: receive.induct)
  case (4 k ch n)
  have "\<forall>q<k. ch ! q = None" using "4.prems"(2) by (metis Suc_less_eq nth_Cons_Suc)
  then show ?case using 4 by simp
qed auto

lemma receive_after_nils:
  "length pre < k \<Longrightarrow> \<forall>m\<in>set pre. m = None \<Longrightarrow>
   receive k (pre @ Some e # post) n = (Returned (Some e), n + Suc (length pre))"
proof (induction pre arbitrary: k n)
  case Nil
  then show ?case by (cases k) auto
next
  case (Cons m pre)
  then obtain k' where k: "k = Suc k'" by (cases k) auto
  show ?case using Cons k by simp
qed

lemma delivery_length: "delivery config order \<Longrightarrow> length order = length config"
  by (metis delivery_def distinct_card card_atLeastLessThan diff_zero)

lemma delivery_nth:
  "delivery config order \<Longrightarrow> q < length config \<Longrightarrow> order ! q < length config"
  by (metis delivery_length delivery_def atLeastLessThan_iff nth_mem)

lemma launch_nth:
  "k < length config \<Longrightarrow> launch config tries probes ! k = goroutine (config ! k) tries (probes k)"
  by (simp add: launch_def)

lemma length_sends:
  "length (concat (map (\<lambda>k. send (f k)) xs)) = length (filter (\<lambda>k. f k \<noteq> None) xs)"
proof (induction xs)
  case Nil
  then show ?case by simp
next
  case (Cons x xs)
  then show ?case by (cases "f x") auto
qed

subsection \<open>\<^verbatim>\<open>CheckConnections\<close>\<close>

text \<open>
  C1, as the code has it. When some goroutine sends an error, \<^verbatim>\<open>CheckConnections\<close> returns
  at the first error that the channel delivers, that of the goroutine at position \<open>p\<close> of
  the delivery order: it returns that error and has received the values \<^verbatim>\<open>nil\<close> sent by
  the goroutines before it and the error itself, which are \<open>p + 1\<close> values when every
  goroutine returns (as all do for \<open>tries < 2\<^sup>6\<^sup>3 - 1\<close>); what is delivered behind it is
  not received. What each launched goroutine does is a function of its own target and its
  own probe outcomes.
\<close>

theorem CheckConnections_returns_at_first_failure:
  assumes "delivery config order"
    and "\<exists>k<length config. \<exists>r. goroutine (config ! k) tries (probes k) = Some r \<and> sent r \<noteq> None"
  shows "\<exists>p<length config. \<exists>r.
           goroutine (config ! (order ! p)) tries (probes (order ! p)) = Some r \<and>
           sent r \<noteq> None \<and>
           (\<forall>q<p. \<forall>r'. goroutine (config ! (order ! q)) tries (probes (order ! q)) = Some r' \<longrightarrow>
                     sent r' = None) \<and>
           outcome (CheckConnections config tries probes order) = Returned (sent r) \<and>
           receives (CheckConnections config tries probes order) =
             Suc (length (filter (\<lambda>k. goroutine (config ! k) tries (probes k) \<noteq> None)
                            (take p order))) \<and>
           (sint tries < 9223372036854775807 \<longrightarrow>
              receives (CheckConnections config tries probes order) = Suc p) \<and>
           launched (CheckConnections config tries probes order) =
             map (\<lambda>k. goroutine (config ! k) tries (probes k)) [0..<length config]"
proof -
  define G where "G k = goroutine (config ! k) tries (probes k)" for k
  define s where "s = (\<lambda>k. send (launch config tries probes ! k))"
  have len: "length order = length config" by (rule delivery_length [OF assms(1)])
  have inb: "k < length config" if "k \<in> set order" for k
    using that assms(1) by (simp add: delivery_def)
  have sG: "s k = send (G k)" if "k \<in> set order" for k
    using inb [OF that] by (simp add: s_def G_def launch_nth)
  from assms(2) obtain k r0 where k: "k < length config" "G k = Some r0" "sent r0 \<noteq> None"
    by (auto simp: G_def)
  then have "k \<in> set order" using assms(1) by (simp add: delivery_def)
  then obtain p0 where p0: "p0 < length order" "order ! p0 = k" by (auto simp: in_set_conv_nth)
  define P where "P p \<longleftrightarrow> p < length config \<and> (\<exists>r. G (order ! p) = Some r \<and> sent r \<noteq> None)" for p
  have "P p0" using p0 k len by (simp add: P_def)
  define p where "p = (LEAST p. P p)"
  have Pp: "P p" unfolding p_def using \<open>P p0\<close> by (rule LeastI)
  have least: "\<not> P q" if "q < p" for q using that not_less_Least p_def by blast
  from Pp obtain r where pl: "p < length config" and r: "G (order ! p) = Some r"
    and f: "sent r \<noteq> None" by (auto simp: P_def)
  from f obtain e where e: "sent r = Some e" by auto
  have before: "sent r' = None" if "q < p" and "G (order ! q) = Some r'" for q r'
    using least [OF that(1)] that pl by (auto simp: P_def)
  define pre where "pre = concat (map s (take p order))"
  define post where "post = concat (map s (drop (Suc p) order))"
  have split: "order = take p order @ order ! p # drop (Suc p) order"
    using pl len by (simp add: id_take_nth_drop)
  have mem: "order ! p \<in> set order" using pl len by simp
  have "concat (map s order) = concat (map s (take p order @ order ! p # drop (Suc p) order))"
    using split by simp
  then have ch: "concat (map s order) = pre @ Some e # post"
    using sG [OF mem] r e by (simp add: pre_def post_def)
  have sub: "k \<in> set order" if "k \<in> set (take p order)" for k
    using that by (rule in_set_takeD)
  have "pre = concat (map (\<lambda>k. send (G k)) (take p order))"
    unfolding pre_def using sG sub by (intro arg_cong [of _ _ concat] map_cong) auto
  then have lpre: "length pre = length (filter (\<lambda>k. G k \<noteq> None) (take p order))"
    by (simp add: length_sends)
  have nils: "\<forall>m\<in>set pre. m = None"
  proof
    fix m assume "m \<in> set pre"
    then obtain k where kt: "k \<in> set (take p order)" and m: "m \<in> set (s k)"
      by (auto simp: pre_def)
    from kt obtain q where q: "q < p" "order ! q = k"
      using pl len by (auto simp: in_set_conv_nth)
    from m sG [OF sub [OF kt]] obtain r' where "G k = Some r'" and "m = sent r'"
      by (cases "G k") auto
    then show "m = None" using before [OF q(1)] q(2) by simp
  qed
  have "length pre \<le> p" unfolding lpre using pl len
    by (metis length_filter_le length_take min.absorb2 less_imp_le_nat)
  then have short: "length pre < length config" using pl by simp
  have "receive (length config) (pre @ Some e # post) 0 = (Returned (Some e), 0 + Suc (length pre))"
    using short nils by (rule receive_after_nils)
  then have res: "outcome (CheckConnections config tries probes order) = Returned (sent r)"
    "receives (CheckConnections config tries probes order) = Suc (length pre)"
    "launched (CheckConnections config tries probes order) = launch config tries probes"
    using ch e by (simp_all add: CheckConnections_def Let_def s_def)
  have all: "length pre = p" if "sint tries < 9223372036854775807"
  proof -
    have "G k \<noteq> None" for k unfolding G_def using that by (rule goroutine_returns)
    then show ?thesis using pl len by (simp add: lpre)
  qed
  show ?thesis
    using pl r f before res lpre all unfolding G_def launch_def by (intro exI [of _ p]) auto
qed

text \<open>
  The theorem on two targets of which the first one fails, the second one being
  delivered first: both values are received.
\<close>

theorem CheckConnections_returns_at_first_failure_witness:
  "\<exists>p<2. \<exists>r. goroutine ([db1, db2] ! ([1, 0] ! p)) 1 (firstDown ([1, 0] ! p)) = Some r \<and>
          outcome (CheckConnections [db1, db2] 1 firstDown [1, 0]) = Returned (sent r) \<and>
          receives (CheckConnections [db1, db2] 1 firstDown [1, 0]) = Suc p"
proof -
  have d: "delivery [db1, db2] [1, 0]" by (auto simp: delivery_def)
  have f: "\<exists>k<length [db1, db2]. \<exists>r. goroutine ([db1, db2] ! k) 1 (firstDown k) = Some r \<and>
             sent r \<noteq> None"
    by (rule exI [of _ 0]) (simp add: goroutine_def retryLoop.simps scenario_defs int64_def)
  have t: "sint (1 :: 64 word) < 9223372036854775807" by simp
  from CheckConnections_returns_at_first_failure [OF d f] t obtain p r where
    "p < 2" and "goroutine ([db1, db2] ! ([1, 0] ! p)) 1 (firstDown ([1, 0] ! p)) = Some r"
    and "outcome (CheckConnections [db1, db2] 1 firstDown [1, 0]) = Returned (sent r)"
    and "receives (CheckConnections [db1, db2] 1 firstDown [1, 0]) = Suc p"
    by auto
  then show ?thesis by blast
qed

text \<open>
  C1, as the claim has it, fails: two goroutines are launched and both fail, the error of
  the first target is delivered first, and \<^verbatim>\<open>CheckConnections\<close> returns it after one
  receive; the value of the second goroutine is never received.
\<close>

theorem CheckConnections_early_return_counterexample:
  "length (launched (CheckConnections [db1, db2] 1 refusedThenSlow [0, 1])) = 2 \<and>
   map_option sent (launched (CheckConnections [db1, db2] 1 refusedThenSlow [0, 1]) ! 1) =
     Some (Some ''[localhost:db2/3307] connection attempts have failed'') \<and>
   receives (CheckConnections [db1, db2] 1 refusedThenSlow [0, 1]) = 1 \<and>
   outcome (CheckConnections [db1, db2] 1 refusedThenSlow [0, 1]) =
     Returned (Some ''[localhost:db1/3306] connection attempts have failed'')"
  by (simp add: CheckConnections_def launch_def goroutine_def retryLoop.simps scenario_defs
      attemptsFailed_def int64_def)

text \<open>
  C8. On the empty list, for every \<open>tries\<close>, \<^verbatim>\<open>CheckConnections\<close> launches no goroutine
  (so no call of \<^verbatim>\<open>CheckConnection\<close> is made), receives nothing and returns \<^verbatim>\<open>nil\<close>.
\<close>

theorem CheckConnections_empty:
  "CheckConnections [] tries probes order =
     \<lparr>launched = [], outcome = Returned None, receives = 0\<rparr>"
  by (simp add: CheckConnections_def launch_def)

lemma sends_no_tries:
  assumes "sint tries < 1" and "\<forall>k\<in>set order. k < length config"
  shows "concat (map (\<lambda>k. send (launch config tries probes ! k)) order) =
         map (\<lambda>k. if tries = 0 then Some (attemptsFailed (config ! k)) else None) order"
  using assms(2)
proof (induction order)
  case Nil
  then show ?case by simp
next
  case (Cons k order)
  then show ?case using assms(1) by (simp add: launch_nth goroutine_no_tries)
qed

text \<open>
  C10. On a non-empty list, \<open>tries = 0\<close> gives the error "connection attempts have failed"
  (of the goroutine whose send is delivered first), \<open>tries < 0\<close> gives \<^verbatim>\<open>nil\<close>, and in
  both cases every goroutine returns without a call of \<^verbatim>\<open>CheckConnection\<close>.
\<close>

theorem CheckConnections_tries_below_one:
  assumes "config \<noteq> []" and "delivery config order"
  shows "(tries = 0 \<longrightarrow>
            outcome (CheckConnections config tries probes order) =
              Returned (Some (attemptsFailed (config ! (order ! 0))))) \<and>
         (sint tries < 0 \<longrightarrow>
            outcome (CheckConnections config tries probes order) = Returned None) \<and>
         (sint tries < 1 \<longrightarrow>
            (\<forall>x\<in>set (launched (CheckConnections config tries probes order)).
               \<exists>r. x = Some r \<and> probeCalls (events r) = 0))"
proof (intro conjI impI)
  have len: "length order = length config" by (rule delivery_length [OF assms(2)])
  have inb: "\<forall>k\<in>set order. k < length config" using assms(2) by (simp add: delivery_def)
  define ch where "ch = concat (map (\<lambda>k. send (launch config tries probes ! k)) order)"
  {
    assume t: "tries = 0"
    have pos: "0 < length config" using assms(1) by simp
    then obtain k rest where o: "order = k # rest" using len by (cases order) auto
    have "ch = map (\<lambda>k. Some (attemptsFailed (config ! k))) order"
      unfolding ch_def using sends_no_tries [OF _ inb, of tries probes] t by simp
    then have "ch = Some (attemptsFailed (config ! (order ! 0))) #
                 map (\<lambda>k. Some (attemptsFailed (config ! k))) rest"
      using o by simp
    moreover have "receive (length config)
                     (Some (attemptsFailed (config ! (order ! 0))) #
                      map (\<lambda>k. Some (attemptsFailed (config ! k))) rest) 0 =
                   (Returned (Some (attemptsFailed (config ! (order ! 0)))), Suc 0)"
      using pos by (cases "length config") simp_all
    ultimately show "outcome (CheckConnections config tries probes order) =
                     Returned (Some (attemptsFailed (config ! (order ! 0))))"
      by (simp add: CheckConnections_def Let_def ch_def)
  }
  {
    assume t: "sint tries < 0"
    then have nz: "tries \<noteq> 0" by auto
    have "ch = map (\<lambda>k. None) order"
      unfolding ch_def using sends_no_tries [OF _ inb, of tries probes] t nz by simp
    then have "receive (length config) ch 0 = (Returned None, 0 + length config)"
      using len by (intro receive_all_None) simp_all
    then show "outcome (CheckConnections config tries probes order) = Returned None"
      by (simp add: CheckConnections_def Let_def ch_def)
  }
  {
    assume t: "sint tries < 1"
    show "\<forall>x\<in>set (launched (CheckConnections config tries probes order)).
            \<exists>r. x = Some r \<and> probeCalls (events r) = 0"
      using t by (auto simp: CheckConnections_def Let_def launch_def goroutine_no_tries
          probeCalls_def split: prod.splits)
  }
qed

text \<open>The theorem on two targets, at \<open>tries = 0\<close> and at \<open>tries = -1\<close>.\<close>

theorem CheckConnections_tries_below_one_witness:
  "outcome (CheckConnections [db1, db2] 0 firstDown [1, 0]) =
     Returned (Some ''[localhost:db2/3307] connection attempts have failed'') \<and>
   outcome (CheckConnections [db1, db2] (- 1) firstDown [1, 0]) = Returned None"
proof -
  have c: "[db1, db2] \<noteq> []" by simp
  have d: "delivery [db1, db2] [1, 0]" by (auto simp: delivery_def)
  show ?thesis
    using CheckConnections_tries_below_one [OF c d, of 0 firstDown]
      CheckConnections_tries_below_one [OF c d, of "- 1" firstDown]
    by (simp add: attemptsFailed_def db2_def)
qed

section \<open>Properties of the TLS configuration and of the constructor\<close>

text \<open>
  C6. For a certificate file that can be read and in which a certificate is found,
  \<^verbatim>\<open>mysqlTLSConfig\<close> returns a configuration with \<^verbatim>\<open>InsecureSkipVerify\<close> set and with the
  certificates of the file as \<^verbatim>\<open>RootCAs\<close>. With \<^verbatim>\<open>InsecureSkipVerify\<close> set and no
  verification callback, \<^verbatim>\<open>crypto/tls\<close> accepts any certificate chain and any host name,
  so the pool is loaded but never consulted.
\<close>

theorem mysqlTLSConfig_skips_verification:
  assumes "reader capath = Inr pem" and "decode pem \<noteq> []"
  shows "mysqlTLSConfig decode capath reader =
           Inr \<lparr>InsecureSkipVerify = True, RootCAs = Some (decode pem)\<rparr>"
  using assms by (simp add: mysqlTLSConfig_def AppendCertsFromPEM_def)

text \<open>The theorem on a file holding the certificate of a private authority.\<close>

theorem mysqlTLSConfig_skips_verification_witness:
  "mysqlTLSConfig oneCertificate ''/etc/ssl/certs/ca-certificates.crt'' caFile =
     Inr \<lparr>InsecureSkipVerify = True, RootCAs = Some [''private CA'']\<rparr>"
proof -
  have r: "caFile ''/etc/ssl/certs/ca-certificates.crt'' = Inr ''PEM of the private CA''"
    by (simp add: caFile_def)
  have d: "oneCertificate ''PEM of the private CA'' \<noteq> []" by (simp add: oneCertificate_def)
  show ?thesis
    using mysqlTLSConfig_skips_verification
      [of caFile "''/etc/ssl/certs/ca-certificates.crt''" "''PEM of the private CA''" oneCertificate,
       OF r d]
    by (simp add: oneCertificate_def)
qed

text \<open>
  \<^verbatim>\<open>CheckConnection\<close> hands the configuration of the target, as it is, to the driver under
  the name built from host and name; an error of the registration ends the probe.
\<close>

lemma CheckConnection_registers_TLSConfig:
  assumes "TLS config"
    and "RegisterTLSConfig drv (''custom-tls-'' @ Host config @ ''-'' @ Name config)
           (TLSConfig config) = Some err"
  shows "CheckConnection drv config = Some (''cannot register TLS config for MySQL connection: '' @ err)"
  using assms by (simp add: CheckConnection_def)

text \<open>
  C9. The constructor replaces an interval of zero by 30 seconds and keeps every other
  interval as it is given.
\<close>

theorem NewMultiMySQLExporter_interval:
  "checkInterval (NewMultiMySQLExporter cfgs interval) =
     (if interval = 0 then 30 * Second else interval)"
  by (simp add: NewMultiMySQLExporter_def)

text \<open>The theorem at zero, at five seconds and at a negative interval.\<close>

theorem NewMultiMySQLExporter_interval_witness:
  "checkInterval (NewMultiMySQLExporter [db1, db2] 0) = 30000000000 \<and>
   checkInterval (NewMultiMySQLExporter [db1, db2] (5 * Second)) = 5000000000 \<and>
   checkInterval (NewMultiMySQLExporter [db1, db2] (- 1)) = - 1"
  using NewMultiMySQLExporter_interval [of "[db1, db2]" 0]
    NewMultiMySQLExporter_interval [of "[db1, db2]" "5 * Second"]
    NewMultiMySQLExporter_interval [of "[db1, db2]" "- 1"]
  by (simp add: Second_def)

section \<open>Properties of the exporter mode\<close>

lemmas exporter_defs = boot_def NewMultiMySQLExporter_def db1_def db2_def labelsOf_def Second_def

subsection \<open>What a step needs and what it changes\<close>

lemma stepE_CallStart:
  "step CallStart s = Some s' \<Longrightarrow>
   phase s = NotStarted \<and> s' = s\<lparr>phase := FirstCycle, checker := AtLock\<rparr>"
  by (simp split: if_splits)

lemma stepE_Lock:
  "step Lock s = Some s' \<Longrightarrow>
   checker s = AtLock \<and> \<not> writer (mu s) \<and> readers (mu s) = {} \<and>
   s' = s\<lparr>mu := (mu s)\<lparr>writer := True\<rparr>, checker := Locked, begun := Suc (begun s)\<rparr>"
  by (simp split: if_splits)

lemma stepE_ResetAvailability:
  "step ResetAvailability s = Some s' \<Longrightarrow>
   checker s = Locked \<and> s' = s\<lparr>availabilityMetric := Map.empty, checker := AvailabilityReset\<rparr>"
  by (simp split: if_splits)

lemma stepE_ResetDuration:
  "step ResetDuration s = Some s' \<Longrightarrow>
   checker s = AvailabilityReset \<and>
   s' = s\<lparr>durationMetric := Map.empty, checker := DurationReset\<rparr>"
  by (simp split: if_splits)

lemma stepE_Launch:
  "step Launch s = Some s' \<Longrightarrow>
   checker s = DurationReset \<and>
   s' = s\<lparr>workers := map (\<lambda>cfg. Launched) (configs s), checker := Waiting\<rparr>"
  by (simp split: if_splits)

lemma stepE_CheckConnectionReturns:
  "step (CheckConnectionReturns k err d) s = Some s' \<Longrightarrow>
   checker s = Waiting \<and> k < length (workers s) \<and> workers s ! k = Launched \<and>
   s' = s\<lparr>workers := (workers s)[k := Checked err d]\<rparr>"
  by (simp split: if_splits)

lemma stepE_SetAvailability:
  "step (SetAvailability k) s = Some s' \<Longrightarrow>
   \<exists>err d. checker s = Waiting \<and> k < length (workers s) \<and> workers s ! k = Checked err d \<and>
     s' = s\<lparr>availabilityMetric :=
               (availabilityMetric s)
                 (labelsOf (configs s ! k) \<mapsto> (if err \<noteq> None then 0 else 1, begun s)),
             workers := (workers s)[k := AvailabilitySet d]\<rparr>"
  by (auto split: if_splits worker.splits)

lemma stepE_SetDuration:
  "step (SetDuration k) s = Some s' \<Longrightarrow>
   \<exists>d. checker s = Waiting \<and> k < length (workers s) \<and> workers s ! k = AvailabilitySet d \<and>
     s' = s\<lparr>durationMetric := (durationMetric s)(labelsOf (configs s ! k) \<mapsto> (d, begun s)),
             workers := (workers s)[k := Finished]\<rparr>"
  by (simp split: if_splits worker.splits)

lemma stepE_Unlock:
  "step Unlock s = Some s' \<Longrightarrow>
   checker s = Waiting \<and> (\<forall>w\<in>set (workers s). w = Finished) \<and>
   s' = s\<lparr>mu := (mu s)\<lparr>writer := False\<rparr>, checker := Outside, finished := begun s\<rparr>"
  by (simp split: if_splits)

lemma stepE_SpawnLoop:
  "step SpawnLoop s = Some s' \<Longrightarrow>
   phase s = FirstCycle \<and> checker s = Outside \<and> s' = s\<lparr>phase := Spawned\<rparr>"
  by (simp split: if_splits)

lemma stepE_NewTicker:
  "step NewTicker s = Some s' \<Longrightarrow>
   phase s = Spawned \<and> s' = s\<lparr>phase := (if checkInterval s \<le> 0 then Crashed else Ticking)\<rparr>"
  by (simp split: if_splits)

lemma stepE_Tick:
  "step Tick s = Some s' \<Longrightarrow>
   phase s = Ticking \<and> checker s = Outside \<and> s' = s\<lparr>checker := AtLock\<rparr>"
  by (simp split: if_splits)

lemma stepE_CtxDone:
  "step CtxDone s = Some s' \<Longrightarrow>
   phase s = Ticking \<and> checker s = Outside \<and> cancelled s \<and> s' = s\<lparr>phase := Exited\<rparr>"
  by (simp split: if_splits)

lemma stepE_Stop: "step Stop s = Some s' \<Longrightarrow> s' = s\<lparr>cancelled := True\<rparr>"
  by auto

lemma stepE_RLock:
  "step (RLock r) s = Some s' \<Longrightarrow>
   collectors s r = Away \<and> \<not> writer (mu s) \<and>
   s' = s\<lparr>mu := (mu s)\<lparr>readers := insert r (readers (mu s))\<rparr>,
           collectors := (collectors s)(r := Holding (started s))\<rparr>"
  by (simp split: if_splits)

lemma stepE_CollectAvailability:
  "step (CollectAvailability r) s = Some s' \<Longrightarrow>
   \<exists>b. collectors s r = Holding b \<and>
     s' = s\<lparr>collectors := (collectors s)(r := Half b (availabilityMetric s))\<rparr>"
  by (simp split: collector.splits)

lemma stepE_CollectDuration:
  "step (CollectDuration r) s = Some s' \<Longrightarrow>
   \<exists>b seen. collectors s r = Half b seen \<and>
     s' = s\<lparr>collectors := (collectors s)(r := Full),
             scrapes := scrapes s @
               [\<lparr>afterStart = b, availabilitySeen = seen, durationSeen = durationMetric s\<rparr>]\<rparr>"
  by (simp split: collector.splits)

lemma stepE_RUnlock:
  "step (RUnlock r) s = Some s' \<Longrightarrow>
   collectors s r = Full \<and>
   s' = s\<lparr>mu := (mu s)\<lparr>readers := readers (mu s) - {r}\<rparr>,
           collectors := (collectors s)(r := Away)\<rparr>"
  by (simp split: if_splits)

subsection \<open>What the parts of the invariant do not depend on\<close>

lemma published_frame [simp]:
  "published (s\<lparr>phase := p\<rparr>) = published s"
  "published (s\<lparr>checker := c\<rparr>) = published s"
  "published (s\<lparr>mu := m\<rparr>) = published s"
  "published (s\<lparr>collectors := cs\<rparr>) = published s"
  "published (s\<lparr>cancelled := b\<rparr>) = published s"
  "published (s\<lparr>scrapes := scs\<rparr>) = published s"
  "published (s\<lparr>workers := ws\<rparr>) = published s"
  "published (s\<lparr>begun := n\<rparr>) = published s"
  by (simp_all add: published_def targets_def)

lemma working_frame [simp]:
  "working (s\<lparr>phase := p\<rparr>) = working s"
  "working (s\<lparr>checker := c\<rparr>) = working s"
  "working (s\<lparr>mu := m\<rparr>) = working s"
  "working (s\<lparr>collectors := cs\<rparr>) = working s"
  "working (s\<lparr>cancelled := b\<rparr>) = working s"
  "working (s\<lparr>scrapes := scs\<rparr>) = working s"
  "working (s\<lparr>finished := n\<rparr>) = working s"
  by (simp_all add: working_def)

lemma gaugeInv_frame [simp]:
  "gaugeInv (s\<lparr>phase := p\<rparr>) = gaugeInv s"
  "gaugeInv (s\<lparr>mu := m\<rparr>) = gaugeInv s"
  "gaugeInv (s\<lparr>collectors := cs\<rparr>) = gaugeInv s"
  "gaugeInv (s\<lparr>cancelled := b\<rparr>) = gaugeInv s"
  "gaugeInv (s\<lparr>scrapes := scs\<rparr>) = gaugeInv s"
  by (simp_all add: gaugeInv_def)

lemma lockInv_frame [simp]:
  "lockInv (s\<lparr>phase := p\<rparr>) = lockInv s"
  "lockInv (s\<lparr>cancelled := b\<rparr>) = lockInv s"
  "lockInv (s\<lparr>scrapes := scs\<rparr>) = lockInv s"
  "lockInv (s\<lparr>workers := ws\<rparr>) = lockInv s"
  "lockInv (s\<lparr>availabilityMetric := g\<rparr>) = lockInv s"
  "lockInv (s\<lparr>durationMetric := g\<rparr>) = lockInv s"
  by (simp_all add: lockInv_def)

lemma phaseInv_frame [simp]:
  "phaseInv (s\<lparr>mu := m\<rparr>) = phaseInv s"
  "phaseInv (s\<lparr>cancelled := b\<rparr>) = phaseInv s"
  "phaseInv (s\<lparr>scrapes := scs\<rparr>) = phaseInv s"
  "phaseInv (s\<lparr>workers := ws\<rparr>) = phaseInv s"
  "phaseInv (s\<lparr>collectors := cs\<rparr>) = phaseInv s"
  "phaseInv (s\<lparr>begun := n\<rparr>) = phaseInv s"
  "phaseInv (s\<lparr>availabilityMetric := g\<rparr>) = phaseInv s"
  "phaseInv (s\<lparr>durationMetric := g\<rparr>) = phaseInv s"
  by (simp_all add: phaseInv_def)

lemma collectorInv_frame [simp]:
  "collectorInv (s\<lparr>phase := p\<rparr>) c = collectorInv s c"
  "collectorInv (s\<lparr>checker := k\<rparr>) c = collectorInv s c"
  "collectorInv (s\<lparr>mu := m\<rparr>) c = collectorInv s c"
  "collectorInv (s\<lparr>collectors := cs\<rparr>) c = collectorInv s c"
  "collectorInv (s\<lparr>cancelled := b\<rparr>) c = collectorInv s c"
  "collectorInv (s\<lparr>scrapes := scs\<rparr>) c = collectorInv s c"
  "collectorInv (s\<lparr>workers := ws\<rparr>) c = collectorInv s c"
  "collectorInv (s\<lparr>begun := n\<rparr>) c = collectorInv s c"
  "collectorInv (s\<lparr>durationMetric := g\<rparr>) c = collectorInv s c"
  by (cases c; simp)+

lemma scrapeInv_frame [simp]:
  "scrapeInv (s\<lparr>phase := p\<rparr>) sc = scrapeInv s sc"
  "scrapeInv (s\<lparr>checker := k\<rparr>) sc = scrapeInv s sc"
  "scrapeInv (s\<lparr>mu := m\<rparr>) sc = scrapeInv s sc"
  "scrapeInv (s\<lparr>collectors := cs\<rparr>) sc = scrapeInv s sc"
  "scrapeInv (s\<lparr>cancelled := b\<rparr>) sc = scrapeInv s sc"
  "scrapeInv (s\<lparr>scrapes := scs\<rparr>) sc = scrapeInv s sc"
  "scrapeInv (s\<lparr>workers := ws\<rparr>) sc = scrapeInv s sc"
  "scrapeInv (s\<lparr>begun := n\<rparr>) sc = scrapeInv s sc"
  "scrapeInv (s\<lparr>availabilityMetric := g\<rparr>) sc = scrapeInv s sc"
  "scrapeInv (s\<lparr>durationMetric := g\<rparr>) sc = scrapeInv s sc"
  by (simp_all add: scrapeInv_def targets_def)

subsection \<open>The gauges during a call of \<^verbatim>\<open>performChecks\<close>\<close>

lemma working_Launch:
  "availabilityMetric s = Map.empty \<Longrightarrow> durationMetric s = Map.empty \<Longrightarrow>
   working (s\<lparr>workers := map (\<lambda>cfg. Launched) (configs s)\<rparr>)"
  by (simp add: working_def setBy_def)

lemma working_Checked:
  assumes "working s" and "k < length (workers s)" and "workers s ! k = Launched"
  shows "working (s\<lparr>workers := (workers s)[k := Checked err d]\<rparr>)"
proof -
  have a: "availabilityDone ((workers s)[k := Checked err d] ! j) = availabilityDone (workers s ! j)"
    if "j < length (workers s)" for j
    using that assms(3) by (cases "j = k") simp_all
  have f: "((workers s)[k := Checked err d] ! j = Finished) = (workers s ! j = Finished)"
    if "j < length (workers s)" for j
    using that assms(3) by (cases "j = k") simp_all
  have "{labelsOf (configs s ! j) |j. j < length (workers s) \<and>
           availabilityDone ((workers s)[k := Checked err d] ! j)} =
        {labelsOf (configs s ! j) |j. j < length (workers s) \<and> availabilityDone (workers s ! j)}"
    using a by blast
  moreover have "{labelsOf (configs s ! j) |j. j < length (workers s) \<and>
           (workers s)[k := Checked err d] ! j = Finished} =
        {labelsOf (configs s ! j) |j. j < length (workers s) \<and> workers s ! j = Finished}"
    using f by blast
  ultimately show ?thesis using assms(1) by (simp add: working_def)
qed

lemma working_SetAvailability:
  assumes "working s" and "k < length (workers s)" and "workers s ! k = Checked err d"
  shows "working (s\<lparr>availabilityMetric :=
                      (availabilityMetric s)(labelsOf (configs s ! k) \<mapsto> (v, begun s)),
                    workers := (workers s)[k := AvailabilitySet d]\<rparr>)"
proof -
  have a: "availabilityDone ((workers s)[k := AvailabilitySet d] ! j) =
           (j = k \<or> availabilityDone (workers s ! j))"
    if "j < length (workers s)" for j
    using that assms(3) by (cases "j = k") simp_all
  have f: "((workers s)[k := AvailabilitySet d] ! j = Finished) = (workers s ! j = Finished)"
    if "j < length (workers s)" for j
    using that assms(3) by (cases "j = k") simp_all
  have "{labelsOf (configs s ! j) |j. j < length (workers s) \<and>
           availabilityDone ((workers s)[k := AvailabilitySet d] ! j)} =
        insert (labelsOf (configs s ! k))
          {labelsOf (configs s ! j) |j. j < length (workers s) \<and> availabilityDone (workers s ! j)}"
    using a assms(2) by blast
  moreover have "{labelsOf (configs s ! j) |j. j < length (workers s) \<and>
           (workers s)[k := AvailabilitySet d] ! j = Finished} =
        {labelsOf (configs s ! j) |j. j < length (workers s) \<and> workers s ! j = Finished}"
    using f by blast
  moreover have "setBy ((availabilityMetric s)(labelsOf (configs s ! k) \<mapsto> (v, begun s))) (begun s)"
    using assms(1) by (simp add: working_def setBy_def)
  ultimately show ?thesis using assms(1) by (simp add: working_def)
qed

lemma working_SetDuration:
  assumes "working s" and "k < length (workers s)" and "workers s ! k = AvailabilitySet d"
  shows "working (s\<lparr>durationMetric := (durationMetric s)(labelsOf (configs s ! k) \<mapsto> (d, begun s)),
                    workers := (workers s)[k := Finished]\<rparr>)"
proof -
  have a: "availabilityDone ((workers s)[k := Finished] ! j) = availabilityDone (workers s ! j)"
    if "j < length (workers s)" for j
    using that assms(3) by (cases "j = k") simp_all
  have f: "((workers s)[k := Finished] ! j = Finished) = (j = k \<or> workers s ! j = Finished)"
    if "j < length (workers s)" for j
    using that assms(3) by (cases "j = k") simp_all
  have "{labelsOf (configs s ! j) |j. j < length (workers s) \<and>
           availabilityDone ((workers s)[k := Finished] ! j)} =
        {labelsOf (configs s ! j) |j. j < length (workers s) \<and> availabilityDone (workers s ! j)}"
    using a by blast
  moreover have "{labelsOf (configs s ! j) |j. j < length (workers s) \<and>
           (workers s)[k := Finished] ! j = Finished} =
        insert (labelsOf (configs s ! k))
          {labelsOf (configs s ! j) |j. j < length (workers s) \<and> workers s ! j = Finished}"
    using f assms(2) by blast
  moreover have "setBy ((durationMetric s)(labelsOf (configs s ! k) \<mapsto> (d, begun s))) (begun s)"
    using assms(1) by (simp add: working_def setBy_def)
  ultimately show ?thesis using assms(1) by (simp add: working_def)
qed

lemma published_Unlock:
  assumes "working s" and "\<forall>w\<in>set (workers s). w = Finished" and "begun s = Suc (finished s)"
  shows "published (s\<lparr>finished := begun s\<rparr>)"
proof -
  have len: "length (workers s) = length (configs s)" using assms(1) by (simp add: working_def)
  have fin: "workers s ! j = Finished" if "j < length (workers s)" for j
    using assms(2) that by simp
  have all: "{labelsOf (configs s ! j) |j. j < length (configs s)} = targets s"
  proof -
    have "{labelsOf (configs s ! j) |j. j < length (configs s)} =
          labelsOf ` {configs s ! j |j. j < length (configs s)}"
      by blast
    then show ?thesis by (simp add: targets_def set_conv_nth)
  qed
  have "{labelsOf (configs s ! j) |j. j < length (workers s) \<and> availabilityDone (workers s ! j)} =
        {labelsOf (configs s ! j) |j. j < length (configs s)}"
    using fin len by auto
  moreover have "{labelsOf (configs s ! j) |j. j < length (workers s) \<and> workers s ! j = Finished} =
        {labelsOf (configs s ! j) |j. j < length (configs s)}"
    using fin len by auto
  ultimately have "dom (availabilityMetric s) = targets s" and "dom (durationMetric s) = targets s"
    using assms(1) all by (simp_all add: working_def)
  then show ?thesis using assms(1,3) by (simp add: published_def working_def targets_def)
qed

subsection \<open>Every step keeps the invariant\<close>

lemma step_lockInv:
  assumes "lockInv s" and "phaseInv s" and "step a s = Some s'"
  shows "lockInv s'"
proof (cases a)
  case CallStart
  with assms(3) have st: "step CallStart s = Some s'" by simp
  show ?thesis using stepE_CallStart [OF st] assms(1) assms(2)
    by (clarsimp simp: lockInv_def phaseInv_def)
next
  case Lock
  with assms(3) have st: "step Lock s = Some s'" by simp
  show ?thesis using stepE_Lock [OF st] assms(1) assms(2)
    by (clarsimp simp: lockInv_def phaseInv_def)
next
  case ResetAvailability
  with assms(3) have st: "step ResetAvailability s = Some s'" by simp
  show ?thesis using stepE_ResetAvailability [OF st] assms(1) assms(2)
    by (clarsimp simp: lockInv_def phaseInv_def)
next
  case ResetDuration
  with assms(3) have st: "step ResetDuration s = Some s'" by simp
  show ?thesis using stepE_ResetDuration [OF st] assms(1) assms(2)
    by (clarsimp simp: lockInv_def phaseInv_def)
next
  case Launch
  with assms(3) have st: "step Launch s = Some s'" by simp
  show ?thesis using stepE_Launch [OF st] assms(1) assms(2)
    by (clarsimp simp: lockInv_def phaseInv_def)
next
  case (CheckConnectionReturns k err d)
  with assms(3) have st: "step (CheckConnectionReturns k err d) s = Some s'" by simp
  show ?thesis using stepE_CheckConnectionReturns [OF st] assms(1) assms(2)
    by (clarsimp simp: lockInv_def phaseInv_def)
next
  case (SetAvailability k)
  with assms(3) have st: "step (SetAvailability k) s = Some s'" by simp
  show ?thesis using stepE_SetAvailability [OF st] assms(1) assms(2)
    by (clarsimp simp: lockInv_def phaseInv_def)
next
  case (SetDuration k)
  with assms(3) have st: "step (SetDuration k) s = Some s'" by simp
  show ?thesis using stepE_SetDuration [OF st] assms(1) assms(2)
    by (clarsimp simp: lockInv_def phaseInv_def)
next
  case Unlock
  with assms(3) have st: "step Unlock s = Some s'" by simp
  show ?thesis using stepE_Unlock [OF st] assms(1) assms(2)
    by (clarsimp simp: lockInv_def phaseInv_def)
next
  case SpawnLoop
  with assms(3) have st: "step SpawnLoop s = Some s'" by simp
  show ?thesis using stepE_SpawnLoop [OF st] assms(1) assms(2)
    by (clarsimp simp: lockInv_def phaseInv_def)
next
  case NewTicker
  with assms(3) have st: "step NewTicker s = Some s'" by simp
  show ?thesis using stepE_NewTicker [OF st] assms(1) assms(2)
    by (clarsimp simp: lockInv_def phaseInv_def)
next
  case Tick
  with assms(3) have st: "step Tick s = Some s'" by simp
  show ?thesis using stepE_Tick [OF st] assms(1) assms(2)
    by (clarsimp simp: lockInv_def phaseInv_def)
next
  case CtxDone
  with assms(3) have st: "step CtxDone s = Some s'" by simp
  show ?thesis using stepE_CtxDone [OF st] assms(1) assms(2)
    by (clarsimp simp: lockInv_def phaseInv_def)
next
  case Stop
  with assms(3) have st: "step Stop s = Some s'" by simp
  show ?thesis using stepE_Stop [OF st] assms(1) assms(2)
    by (clarsimp simp: lockInv_def phaseInv_def)
next
  case (RLock r)
  with assms(3) have st: "step (RLock r) s = Some s'" by simp
  show ?thesis using stepE_RLock [OF st] assms(1) assms(2)
    by (clarsimp simp: lockInv_def phaseInv_def)
next
  case (CollectAvailability r)
  with assms(3) have st: "step (CollectAvailability r) s = Some s'" by simp
  show ?thesis using stepE_CollectAvailability [OF st] assms(1) assms(2)
    by (clarsimp simp: lockInv_def phaseInv_def)
next
  case (CollectDuration r)
  with assms(3) have st: "step (CollectDuration r) s = Some s'" by simp
  show ?thesis using stepE_CollectDuration [OF st] assms(1) assms(2)
    by (clarsimp simp: lockInv_def phaseInv_def)
next
  case (RUnlock r)
  with assms(3) have st: "step (RUnlock r) s = Some s'" by simp
  show ?thesis using stepE_RUnlock [OF st] assms(1) assms(2)
    by (clarsimp simp: lockInv_def phaseInv_def)
qed

lemma step_phaseInv:
  assumes "lockInv s" and "phaseInv s" and "step a s = Some s'"
  shows "phaseInv s'"
proof (cases a)
  case CallStart
  with assms(3) have st: "step CallStart s = Some s'" by simp
  show ?thesis using stepE_CallStart [OF st] assms(1) assms(2)
    by (clarsimp simp: lockInv_def phaseInv_def)
next
  case Lock
  with assms(3) have st: "step Lock s = Some s'" by simp
  show ?thesis using stepE_Lock [OF st] assms(1) assms(2)
    by (clarsimp simp: lockInv_def phaseInv_def)
next
  case ResetAvailability
  with assms(3) have st: "step ResetAvailability s = Some s'" by simp
  show ?thesis using stepE_ResetAvailability [OF st] assms(1) assms(2)
    by (clarsimp simp: lockInv_def phaseInv_def)
next
  case ResetDuration
  with assms(3) have st: "step ResetDuration s = Some s'" by simp
  show ?thesis using stepE_ResetDuration [OF st] assms(1) assms(2)
    by (clarsimp simp: lockInv_def phaseInv_def)
next
  case Launch
  with assms(3) have st: "step Launch s = Some s'" by simp
  show ?thesis using stepE_Launch [OF st] assms(1) assms(2)
    by (clarsimp simp: lockInv_def phaseInv_def)
next
  case (CheckConnectionReturns k err d)
  with assms(3) have st: "step (CheckConnectionReturns k err d) s = Some s'" by simp
  show ?thesis using stepE_CheckConnectionReturns [OF st] assms(1) assms(2)
    by (clarsimp simp: lockInv_def phaseInv_def)
next
  case (SetAvailability k)
  with assms(3) have st: "step (SetAvailability k) s = Some s'" by simp
  show ?thesis using stepE_SetAvailability [OF st] assms(1) assms(2)
    by (clarsimp simp: lockInv_def phaseInv_def)
next
  case (SetDuration k)
  with assms(3) have st: "step (SetDuration k) s = Some s'" by simp
  show ?thesis using stepE_SetDuration [OF st] assms(1) assms(2)
    by (clarsimp simp: lockInv_def phaseInv_def)
next
  case Unlock
  with assms(3) have st: "step Unlock s = Some s'" by simp
  show ?thesis using stepE_Unlock [OF st] assms(1) assms(2)
    by (clarsimp simp: lockInv_def phaseInv_def)
next
  case SpawnLoop
  with assms(3) have st: "step SpawnLoop s = Some s'" by simp
  show ?thesis using stepE_SpawnLoop [OF st] assms(1) assms(2)
    by (clarsimp simp: lockInv_def phaseInv_def)
next
  case NewTicker
  with assms(3) have st: "step NewTicker s = Some s'" by simp
  show ?thesis using stepE_NewTicker [OF st] assms(1) assms(2)
    by (clarsimp simp: lockInv_def phaseInv_def)
next
  case Tick
  with assms(3) have st: "step Tick s = Some s'" by simp
  show ?thesis using stepE_Tick [OF st] assms(1) assms(2)
    by (clarsimp simp: lockInv_def phaseInv_def)
next
  case CtxDone
  with assms(3) have st: "step CtxDone s = Some s'" by simp
  show ?thesis using stepE_CtxDone [OF st] assms(1) assms(2)
    by (clarsimp simp: lockInv_def phaseInv_def)
next
  case Stop
  with assms(3) have st: "step Stop s = Some s'" by simp
  show ?thesis using stepE_Stop [OF st] assms(1) assms(2)
    by (clarsimp simp: lockInv_def phaseInv_def)
next
  case (RLock r)
  with assms(3) have st: "step (RLock r) s = Some s'" by simp
  show ?thesis using stepE_RLock [OF st] assms(1) assms(2)
    by (clarsimp simp: lockInv_def phaseInv_def)
next
  case (CollectAvailability r)
  with assms(3) have st: "step (CollectAvailability r) s = Some s'" by simp
  show ?thesis using stepE_CollectAvailability [OF st] assms(1) assms(2)
    by (clarsimp simp: lockInv_def phaseInv_def)
next
  case (CollectDuration r)
  with assms(3) have st: "step (CollectDuration r) s = Some s'" by simp
  show ?thesis using stepE_CollectDuration [OF st] assms(1) assms(2)
    by (clarsimp simp: lockInv_def phaseInv_def)
next
  case (RUnlock r)
  with assms(3) have st: "step (RUnlock r) s = Some s'" by simp
  show ?thesis using stepE_RUnlock [OF st] assms(1) assms(2)
    by (clarsimp simp: lockInv_def phaseInv_def)
qed

lemma published_after_Unlock:
  assumes "working s" and "\<forall>w\<in>set (workers s). w = Finished" and "begun s = Suc (finished s)"
  shows "published (s\<lparr>mu := m, checker := c, finished := begun s\<rparr>)"
proof -
  have p: "published (s\<lparr>finished := begun s\<rparr>)" by (rule published_Unlock [OF assms])
  have "published (s\<lparr>mu := m, checker := c, finished := begun s\<rparr>) =
        published (s\<lparr>finished := begun s\<rparr>)"
    by (simp add: published_def targets_def)
  then show ?thesis using p by simp
qed

lemma step_gaugeInv:
  assumes "lockInv s" and "phaseInv s" and "gaugeInv s" and "step a s = Some s'"
  shows "gaugeInv s'"
proof (cases a)
  case CallStart
  with assms(4) have st: "step CallStart s = Some s'" by simp
  show ?thesis using stepE_CallStart [OF st] assms(1) assms(2) assms(3)
    by (clarsimp simp: gaugeInv_def phaseInv_def)
next
  case Lock
  with assms(4) have st: "step Lock s = Some s'" by simp
  show ?thesis using stepE_Lock [OF st] assms(1) assms(2) assms(3)
    by (clarsimp simp: gaugeInv_def)
next
  case ResetAvailability
  with assms(4) have st: "step ResetAvailability s = Some s'" by simp
  show ?thesis using stepE_ResetAvailability [OF st] assms(1) assms(2) assms(3)
    by (clarsimp simp: gaugeInv_def)
next
  case ResetDuration
  with assms(4) have st: "step ResetDuration s = Some s'" by simp
  show ?thesis using stepE_ResetDuration [OF st] assms(1) assms(2) assms(3)
    by (clarsimp simp: gaugeInv_def)
next
  case Launch
  with assms(4) have st: "step Launch s = Some s'" by simp
  show ?thesis using stepE_Launch [OF st] assms(1) assms(2) assms(3)
    by (clarsimp simp: gaugeInv_def working_Launch)
next
  case (CheckConnectionReturns k err d)
  with assms(4) have st: "step (CheckConnectionReturns k err d) s = Some s'" by simp
  show ?thesis using stepE_CheckConnectionReturns [OF st] assms(1) assms(2) assms(3)
    by (clarsimp simp: gaugeInv_def working_Checked)
next
  case (SetAvailability k)
  with assms(4) have st: "step (SetAvailability k) s = Some s'" by simp
  show ?thesis using stepE_SetAvailability [OF st] assms(1) assms(2) assms(3)
    by (clarsimp simp: gaugeInv_def working_SetAvailability)
next
  case (SetDuration k)
  with assms(4) have st: "step (SetDuration k) s = Some s'" by simp
  show ?thesis using stepE_SetDuration [OF st] assms(1) assms(2) assms(3)
    by (clarsimp simp: gaugeInv_def working_SetDuration)
next
  case Unlock
  with assms(4) have st: "step Unlock s = Some s'" by simp
  from stepE_Unlock [OF st] have w: "checker s = Waiting"
    and f: "\<forall>w\<in>set (workers s). w = Finished"
    and s': "s' = s\<lparr>mu := (mu s)\<lparr>writer := False\<rparr>, checker := Outside, finished := begun s\<rparr>"
    by simp_all
  have b: "begun s = Suc (finished s)" using assms(1) w by (simp add: lockInv_def)
  have "working s" using assms(3) w by (simp add: gaugeInv_def)
  then have "published s'" unfolding s' using f b by (rule published_after_Unlock)
  then show ?thesis by (simp add: gaugeInv_def s')
next
  case SpawnLoop
  with assms(4) have st: "step SpawnLoop s = Some s'" by simp
  show ?thesis using stepE_SpawnLoop [OF st] assms(1) assms(2) assms(3)
    by (clarsimp simp: gaugeInv_def)
next
  case NewTicker
  with assms(4) have st: "step NewTicker s = Some s'" by simp
  show ?thesis using stepE_NewTicker [OF st] assms(1) assms(2) assms(3)
    by (clarsimp simp: gaugeInv_def)
next
  case Tick
  with assms(4) have st: "step Tick s = Some s'" by simp
  show ?thesis using stepE_Tick [OF st] assms(1) assms(2) assms(3)
    by (clarsimp simp: gaugeInv_def)
next
  case CtxDone
  with assms(4) have st: "step CtxDone s = Some s'" by simp
  show ?thesis using stepE_CtxDone [OF st] assms(1) assms(2) assms(3)
    by (clarsimp simp: gaugeInv_def)
next
  case Stop
  with assms(4) have st: "step Stop s = Some s'" by simp
  show ?thesis using stepE_Stop [OF st] assms(1) assms(2) assms(3)
    by (clarsimp simp: gaugeInv_def)
next
  case (RLock r)
  with assms(4) have st: "step (RLock r) s = Some s'" by simp
  show ?thesis using stepE_RLock [OF st] assms(1) assms(2) assms(3)
    by (clarsimp simp: gaugeInv_def)
next
  case (CollectAvailability r)
  with assms(4) have st: "step (CollectAvailability r) s = Some s'" by simp
  show ?thesis using stepE_CollectAvailability [OF st] assms(1) assms(2) assms(3)
    by (clarsimp simp: gaugeInv_def)
next
  case (CollectDuration r)
  with assms(4) have st: "step (CollectDuration r) s = Some s'" by simp
  show ?thesis using stepE_CollectDuration [OF st] assms(1) assms(2) assms(3)
    by (clarsimp simp: gaugeInv_def)
next
  case (RUnlock r)
  with assms(4) have st: "step (RUnlock r) s = Some s'" by simp
  show ?thesis using stepE_RUnlock [OF st] assms(1) assms(2) assms(3)
    by (clarsimp simp: gaugeInv_def)
qed

lemma nobody_collects:
  "lockInv s \<Longrightarrow> checker s \<noteq> Outside \<Longrightarrow> checker s \<noteq> AtLock \<Longrightarrow> collectors s r = Away"
  by (auto simp: lockInv_def)

lemma step_collectorInv:
  assumes "lockInv s" and "phaseInv s" and "\<forall>r. collectorInv s (collectors s r)"
    and "step a s = Some s'"
  shows "\<forall>r. collectorInv s' (collectors s' r)"
proof (cases a)
  case CallStart
  with assms(4) have st: "step CallStart s = Some s'" by simp
  show ?thesis using stepE_CallStart [OF st] assms(3) by clarsimp
next
  case Lock
  with assms(4) have st: "step Lock s = Some s'" by simp
  show ?thesis using stepE_Lock [OF st] assms(3) by clarsimp
next
  case ResetAvailability
  with assms(4) have st: "step ResetAvailability s = Some s'" by simp
  have "collectors s' = collectors s" using stepE_ResetAvailability [OF st] by auto
  moreover have "collectors s r = Away" for r
    using stepE_ResetAvailability [OF st] assms(1) by (intro nobody_collects) auto
  ultimately show ?thesis by simp
next
  case ResetDuration
  with assms(4) have st: "step ResetDuration s = Some s'" by simp
  show ?thesis using stepE_ResetDuration [OF st] assms(3) by clarsimp
next
  case Launch
  with assms(4) have st: "step Launch s = Some s'" by simp
  show ?thesis using stepE_Launch [OF st] assms(3) by clarsimp
next
  case (CheckConnectionReturns k err d)
  with assms(4) have st: "step (CheckConnectionReturns k err d) s = Some s'" by simp
  show ?thesis using stepE_CheckConnectionReturns [OF st] assms(3) by clarsimp
next
  case (SetAvailability k)
  with assms(4) have st: "step (SetAvailability k) s = Some s'" by simp
  have "collectors s' = collectors s" using stepE_SetAvailability [OF st] by auto
  moreover have "collectors s r = Away" for r
    using stepE_SetAvailability [OF st] assms(1) by (intro nobody_collects) auto
  ultimately show ?thesis by simp
next
  case (SetDuration k)
  with assms(4) have st: "step (SetDuration k) s = Some s'" by simp
  show ?thesis using stepE_SetDuration [OF st] assms(3) by clarsimp
next
  case Unlock
  with assms(4) have st: "step Unlock s = Some s'" by simp
  have "collectors s' = collectors s" using stepE_Unlock [OF st] by auto
  moreover have "collectors s r = Away" for r
    using stepE_Unlock [OF st] assms(1) by (intro nobody_collects) auto
  ultimately show ?thesis by simp
next
  case SpawnLoop
  with assms(4) have st: "step SpawnLoop s = Some s'" by simp
  show ?thesis using stepE_SpawnLoop [OF st] assms(3) by clarsimp
next
  case NewTicker
  with assms(4) have st: "step NewTicker s = Some s'" by simp
  show ?thesis using stepE_NewTicker [OF st] assms(3) by clarsimp
next
  case Tick
  with assms(4) have st: "step Tick s = Some s'" by simp
  show ?thesis using stepE_Tick [OF st] assms(3) by clarsimp
next
  case CtxDone
  with assms(4) have st: "step CtxDone s = Some s'" by simp
  show ?thesis using stepE_CtxDone [OF st] assms(3) by clarsimp
next
  case Stop
  with assms(4) have st: "step Stop s = Some s'" by simp
  show ?thesis using stepE_Stop [OF st] assms(3) by clarsimp
next
  case (RLock r)
  with assms(4) have st: "step (RLock r) s = Some s'" by simp
  from stepE_RLock [OF st]
  have s': "s' = s\<lparr>mu := (mu s)\<lparr>readers := insert r (readers (mu s))\<rparr>,
                   collectors := (collectors s)(r := Holding (started s))\<rparr>"
    by simp
  have "started s \<longrightarrow> 1 \<le> finished s" using assms(2) by (auto simp: phaseInv_def started_def)
  then have "collectorInv s (Holding (started s))" by simp
  then show ?thesis using assms(3) by (simp add: s')
next
  case (CollectAvailability r)
  with assms(4) have st: "step (CollectAvailability r) s = Some s'" by simp
  from stepE_CollectAvailability [OF st] obtain b where c: "collectors s r = Holding b"
    and s': "s' = s\<lparr>collectors := (collectors s)(r := Half b (availabilityMetric s))\<rparr>"
    by blast
  have "collectorInv s (Holding b)" using assms(3) [rule_format, of r] c by simp
  then have "collectorInv s (Half b (availabilityMetric s))" by simp
  then show ?thesis using assms(3) by (simp add: s')
next
  case (CollectDuration r)
  with assms(4) have st: "step (CollectDuration r) s = Some s'" by simp
  from stepE_CollectDuration [OF st] obtain b seen where
    s': "s' = s\<lparr>collectors := (collectors s)(r := Full),
                   scrapes := scrapes s @
                     [\<lparr>afterStart = b, availabilitySeen = seen, durationSeen = durationMetric s\<rparr>]\<rparr>"
    by blast
  show ?thesis using assms(3) by (simp add: s')
next
  case (RUnlock r)
  with assms(4) have st: "step (RUnlock r) s = Some s'" by simp
  from stepE_RUnlock [OF st]
  have s': "s' = s\<lparr>mu := (mu s)\<lparr>readers := readers (mu s) - {r}\<rparr>,
                   collectors := (collectors s)(r := Away)\<rparr>"
    by simp
  show ?thesis using assms(3) by (simp add: s')
qed

lemma scrapeInv_later:
  assumes "scrapeInv s sc" and "finished s \<le> n"
  shows "scrapeInv (s\<lparr>mu := m, checker := c, finished := n\<rparr>) sc"
proof -
  define s' where "s' = s\<lparr>mu := m, checker := c, finished := n\<rparr>"
  have t: "targets s' = targets s" and f: "finished s' = n"
    by (simp_all add: s'_def targets_def)
  from assms(1) obtain k where k: "k \<le> finished s"
    and body: "setBy (availabilitySeen sc) k \<and> setBy (durationSeen sc) k \<and>
        (if k = 0
         then availabilitySeen sc = Map.empty \<and> durationSeen sc = Map.empty
         else dom (availabilitySeen sc) = targets s \<and> dom (durationSeen sc) = targets s)"
    and after: "afterStart sc \<longrightarrow>
        dom (availabilitySeen sc) = targets s \<and> dom (durationSeen sc) = targets s"
    unfolding scrapeInv_def by blast
  have "k \<le> finished s'" using k assms(2) f by simp
  then have "\<exists>c\<le>finished s'.
        setBy (availabilitySeen sc) c \<and> setBy (durationSeen sc) c \<and>
        (if c = 0
         then availabilitySeen sc = Map.empty \<and> durationSeen sc = Map.empty
         else dom (availabilitySeen sc) = targets s' \<and> dom (durationSeen sc) = targets s')"
    using body unfolding t by blast
  then have "scrapeInv s' sc" using after unfolding scrapeInv_def t by blast
  then show ?thesis by (simp add: s'_def)
qed

lemma scrapeInv_published:
  assumes "published s" and "b \<longrightarrow> 1 \<le> finished s"
  shows "scrapeInv s \<lparr>afterStart = b, availabilitySeen = availabilityMetric s,
                      durationSeen = durationMetric s\<rparr>"
proof -
  define sc where "sc = \<lparr>afterStart = b, availabilitySeen = availabilityMetric s,
                         durationSeen = durationMetric s\<rparr>"
  have seen: "availabilitySeen sc = availabilityMetric s" "durationSeen sc = durationMetric s"
    "afterStart sc = b"
    by (simp_all add: sc_def)
  have "setBy (availabilitySeen sc) (finished s) \<and> setBy (durationSeen sc) (finished s) \<and>
        (if finished s = 0
         then availabilitySeen sc = Map.empty \<and> durationSeen sc = Map.empty
         else dom (availabilitySeen sc) = targets s \<and> dom (durationSeen sc) = targets s)"
    using assms(1) unfolding seen by (simp add: published_def)
  then have one: "\<exists>c\<le>finished s.
        setBy (availabilitySeen sc) c \<and> setBy (durationSeen sc) c \<and>
        (if c = 0
         then availabilitySeen sc = Map.empty \<and> durationSeen sc = Map.empty
         else dom (availabilitySeen sc) = targets s \<and> dom (durationSeen sc) = targets s)"
    by (intro exI [of _ "finished s"]) simp
  have "dom (availabilitySeen sc) = targets s \<and> dom (durationSeen sc) = targets s"
    if "afterStart sc"
  proof -
    have "finished s \<noteq> 0" using that assms(2) by (simp add: seen)
    then show ?thesis using assms(1) unfolding seen by (simp add: published_def)
  qed
  then have "scrapeInv s sc" using one by (simp add: scrapeInv_def)
  then show ?thesis by (simp add: sc_def)
qed

lemma published_while_collecting:
  assumes "lockInv s" and "gaugeInv s" and "collectors s r \<noteq> Away"
  shows "published s"
proof -
  have "r \<in> readers (mu s)" using assms(1,3) by (simp add: lockInv_def)
  then have "\<not> writer (mu s)" using assms(1) by (auto simp: lockInv_def)
  then have "checker s = Outside \<or> checker s = AtLock" using assms(1) by (simp add: lockInv_def)
  then show ?thesis using assms(2) by (simp add: gaugeInv_def)
qed

lemma step_scrapeInv:
  assumes "lockInv s" and "gaugeInv s" and "\<forall>r. collectorInv s (collectors s r)"
    and "\<forall>sc\<in>set (scrapes s). scrapeInv s sc" and "step a s = Some s'"
  shows "\<forall>sc\<in>set (scrapes s'). scrapeInv s' sc"
proof (cases a)
  case CallStart
  with assms(5) have st: "step CallStart s = Some s'" by simp
  show ?thesis using stepE_CallStart [OF st] assms(4) by clarsimp
next
  case Lock
  with assms(5) have st: "step Lock s = Some s'" by simp
  show ?thesis using stepE_Lock [OF st] assms(4) by clarsimp
next
  case ResetAvailability
  with assms(5) have st: "step ResetAvailability s = Some s'" by simp
  show ?thesis using stepE_ResetAvailability [OF st] assms(4) by clarsimp
next
  case ResetDuration
  with assms(5) have st: "step ResetDuration s = Some s'" by simp
  show ?thesis using stepE_ResetDuration [OF st] assms(4) by clarsimp
next
  case Launch
  with assms(5) have st: "step Launch s = Some s'" by simp
  show ?thesis using stepE_Launch [OF st] assms(4) by clarsimp
next
  case (CheckConnectionReturns k err d)
  with assms(5) have st: "step (CheckConnectionReturns k err d) s = Some s'" by simp
  show ?thesis using stepE_CheckConnectionReturns [OF st] assms(4) by clarsimp
next
  case (SetAvailability k)
  with assms(5) have st: "step (SetAvailability k) s = Some s'" by simp
  show ?thesis using stepE_SetAvailability [OF st] assms(4) by clarsimp
next
  case (SetDuration k)
  with assms(5) have st: "step (SetDuration k) s = Some s'" by simp
  show ?thesis using stepE_SetDuration [OF st] assms(4) by clarsimp
next
  case SpawnLoop
  with assms(5) have st: "step SpawnLoop s = Some s'" by simp
  show ?thesis using stepE_SpawnLoop [OF st] assms(4) by clarsimp
next
  case NewTicker
  with assms(5) have st: "step NewTicker s = Some s'" by simp
  show ?thesis using stepE_NewTicker [OF st] assms(4) by clarsimp
next
  case Tick
  with assms(5) have st: "step Tick s = Some s'" by simp
  show ?thesis using stepE_Tick [OF st] assms(4) by clarsimp
next
  case CtxDone
  with assms(5) have st: "step CtxDone s = Some s'" by simp
  show ?thesis using stepE_CtxDone [OF st] assms(4) by clarsimp
next
  case Stop
  with assms(5) have st: "step Stop s = Some s'" by simp
  show ?thesis using stepE_Stop [OF st] assms(4) by clarsimp
next
  case (RLock r)
  with assms(5) have st: "step (RLock r) s = Some s'" by simp
  show ?thesis using stepE_RLock [OF st] assms(4) by clarsimp
next
  case (CollectAvailability r)
  with assms(5) have st: "step (CollectAvailability r) s = Some s'" by simp
  show ?thesis using stepE_CollectAvailability [OF st] assms(4) by clarsimp
next
  case (RUnlock r)
  with assms(5) have st: "step (RUnlock r) s = Some s'" by simp
  show ?thesis using stepE_RUnlock [OF st] assms(4) by clarsimp
next
  case Unlock
  with assms(5) have st: "step Unlock s = Some s'" by simp
  from stepE_Unlock [OF st] have w: "checker s = Waiting"
    and s': "s' = s\<lparr>mu := (mu s)\<lparr>writer := False\<rparr>, checker := Outside, finished := begun s\<rparr>"
    by simp_all
  have "finished s \<le> begun s" using assms(1) by (simp add: lockInv_def)
  then show ?thesis using assms(4) unfolding s' by (auto intro: scrapeInv_later)
next
  case (CollectDuration r)
  with assms(5) have st: "step (CollectDuration r) s = Some s'" by simp
  from stepE_CollectDuration [OF st] obtain b seen where c: "collectors s r = Half b seen"
    and s': "s' = s\<lparr>collectors := (collectors s)(r := Full),
                     scrapes := scrapes s @
                       [\<lparr>afterStart = b, availabilitySeen = seen, durationSeen = durationMetric s\<rparr>]\<rparr>"
    by blast
  have "collectorInv s (Half b seen)" using assms(3) c by metis
  then have seen: "seen = availabilityMetric s" and b: "b \<longrightarrow> 1 \<le> finished s" by simp_all
  have "collectors s r \<noteq> Away" using c by simp
  then have "published s" by (rule published_while_collecting [OF assms(1,2)])
  then have "scrapeInv s \<lparr>afterStart = b, availabilitySeen = seen, durationSeen = durationMetric s\<rparr>"
    unfolding seen using b by (rule scrapeInv_published)
  then show ?thesis using assms(4) unfolding s' by auto
qed

lemma Inv_boot: "Inv (boot cfgs interval)"
  by (simp add: Inv_def boot_def NewMultiMySQLExporter_def lockInv_def gaugeInv_def phaseInv_def
      published_def setBy_def)

lemma step_Inv: "Inv s \<Longrightarrow> step a s = Some s' \<Longrightarrow> Inv s'"
  unfolding Inv_def
  using step_lockInv step_phaseInv step_gaugeInv step_collectorInv step_scrapeInv by blast

lemma run_Inv: "Inv s \<Longrightarrow> run sched s = Some s' \<Longrightarrow> Inv s'"
proof (induction sched arbitrary: s)
  case Nil
  then show ?case by simp
next
  case (Cons a sched)
  then show ?case by (auto split: if_splits option.splits dest: step_Inv)
qed

lemma step_configs: "step a s = Some s' \<Longrightarrow> configs s' = configs s"
  by (cases a) (auto split: if_splits worker.splits collector.splits)

lemma run_configs: "run sched s = Some s' \<Longrightarrow> configs s' = configs s"
proof (induction sched arbitrary: s)
  case Nil
  then show ?case by simp
next
  case (Cons a sched)
  then show ?case by (auto split: if_splits option.splits dest: step_configs)
qed

lemma run_boot_Inv: "run sched (boot cfgs interval) = Some s \<Longrightarrow> Inv s"
  using Inv_boot run_Inv by blast

lemma run_boot_targets: "run sched (boot cfgs interval) = Some s \<Longrightarrow> targets s = labelsOf ` set cfgs"
  using run_configs [of sched "boot cfgs interval" s]
  by (simp add: targets_def boot_def NewMultiMySQLExporter_def)

lemma run_scrapeAcrossTick:
  "\<exists>s. run scrapeAcrossTick (boot [db1, db2] 0) = Some s \<and> length (scrapes s) = 1 \<and>
       afterStart (hd (scrapes s)) \<and> started s"
  by (simp add: scrapeAcrossTick_def firstCycle_def exporter_defs started_def)

subsection \<open>Reads, cycles and the lock\<close>

text \<open>
  C3. Under every schedule, what a call of \<^verbatim>\<open>Collect\<close> has read, availability and duration
  gauges together, is what one call of \<^verbatim>\<open>performChecks\<close> that had returned has left:
  every gauge read was set by that one call, and both vectors hold a gauge for every
  configured target, so that nothing of a reset or of a refill under way is seen. A read
  made before the first call has returned is empty.
\<close>

theorem Collect_reads_one_cycle:
  assumes "run sched (boot cfgs interval) = Some s" and "sc \<in> set (scrapes s)"
  shows "\<exists>c\<le>finished s.
           setBy (availabilitySeen sc) c \<and> setBy (durationSeen sc) c \<and>
           (c = 0 \<longrightarrow> availabilitySeen sc = Map.empty \<and> durationSeen sc = Map.empty) \<and>
           (c \<noteq> 0 \<longrightarrow>
              dom (availabilitySeen sc) = labelsOf ` set cfgs \<and>
              dom (durationSeen sc) = labelsOf ` set cfgs)"
proof -
  have "Inv s" by (rule run_boot_Inv [OF assms(1)])
  then have "scrapeInv s sc" using assms(2) by (simp add: Inv_def)
  then obtain c where "c \<le> finished s"
    and "setBy (availabilitySeen sc) c" and "setBy (durationSeen sc) c"
    and "if c = 0
         then availabilitySeen sc = Map.empty \<and> durationSeen sc = Map.empty
         else dom (availabilitySeen sc) = targets s \<and> dom (durationSeen sc) = targets s"
    unfolding scrapeInv_def by blast
  then show ?thesis
    using run_boot_targets [OF assms(1)] by (intro exI [of _ c]) (simp split: if_splits)
qed

text \<open>
  The theorem on a call of \<^verbatim>\<open>Collect\<close> during which the ticker fires: it reads what the
  first cycle has left, a gauge for each of the two targets in both vectors.
\<close>

theorem Collect_reads_one_cycle_witness:
  "\<exists>s. run scrapeAcrossTick (boot [db1, db2] 0) = Some s \<and> scrapes s \<noteq> [] \<and>
       (\<exists>c\<le>finished s.
          setBy (availabilitySeen (hd (scrapes s))) c \<and>
          setBy (durationSeen (hd (scrapes s))) c \<and>
          (c \<noteq> 0 \<longrightarrow>
             dom (availabilitySeen (hd (scrapes s))) = labelsOf ` set [db1, db2] \<and>
             dom (durationSeen (hd (scrapes s))) = labelsOf ` set [db1, db2]))"
proof -
  from run_scrapeAcrossTick obtain s where
    r: "run scrapeAcrossTick (boot [db1, db2] 0) = Some s" and l: "length (scrapes s) = 1"
    by blast
  from l have n: "scrapes s \<noteq> []" by auto
  then have "hd (scrapes s) \<in> set (scrapes s)" by simp
  from Collect_reads_one_cycle [OF r this] show ?thesis using r n by blast
qed

text \<open>
  C7. Under every schedule, once \<^verbatim>\<open>Start\<close> has spawned the loop and returned, a call of
  \<^verbatim>\<open>performChecks\<close> has returned; and every call of \<^verbatim>\<open>Collect\<close> that took the read lock
  after the return of \<^verbatim>\<open>Start\<close> has read, from each of the two gauge vectors, exactly the
  label values of the configured targets: one gauge per target when the targets differ in
  their label values.
\<close>

theorem Start_runs_first_cycle:
  assumes "run sched (boot cfgs interval) = Some s"
  shows "(phase s \<noteq> NotStarted \<and> phase s \<noteq> FirstCycle \<longrightarrow> 1 \<le> finished s) \<and>
         (\<forall>sc\<in>set (scrapes s). afterStart sc \<longrightarrow>
            dom (availabilitySeen sc) = labelsOf ` set cfgs \<and>
            dom (durationSeen sc) = labelsOf ` set cfgs \<and>
            (distinct (map labelsOf cfgs) \<longrightarrow>
               card (dom (availabilitySeen sc)) = length cfgs \<and>
               card (dom (durationSeen sc)) = length cfgs))"
proof -
  have inv: "Inv s" by (rule run_boot_Inv [OF assms])
  have t: "targets s = labelsOf ` set cfgs" by (rule run_boot_targets [OF assms])
  have c: "card (labelsOf ` set cfgs) = length cfgs" if "distinct (map labelsOf cfgs)"
    using distinct_card [OF that] by simp
  have "phase s \<noteq> NotStarted \<and> phase s \<noteq> FirstCycle \<longrightarrow> 1 \<le> finished s"
    using inv by (simp add: Inv_def phaseInv_def)
  moreover have "dom (availabilitySeen sc) = labelsOf ` set cfgs \<and>
                 dom (durationSeen sc) = labelsOf ` set cfgs \<and>
                 (distinct (map labelsOf cfgs) \<longrightarrow>
                    card (dom (availabilitySeen sc)) = length cfgs \<and>
                    card (dom (durationSeen sc)) = length cfgs)"
    if "sc \<in> set (scrapes s)" and "afterStart sc" for sc
  proof -
    have "scrapeInv s sc" using inv that(1) by (simp add: Inv_def)
    then have "dom (availabilitySeen sc) = labelsOf ` set cfgs"
      and "dom (durationSeen sc) = labelsOf ` set cfgs"
      using that(2) t by (simp_all add: scrapeInv_def)
    then show ?thesis using c by simp
  qed
  ultimately show ?thesis by blast
qed

text \<open>The theorem on the two targets \<open>db1\<close> and \<open>db2\<close>.\<close>

theorem Start_runs_first_cycle_witness:
  "\<exists>s. run scrapeAcrossTick (boot [db1, db2] 0) = Some s \<and> phase s = Ticking \<and>
       1 \<le> finished s \<and> afterStart (hd (scrapes s)) \<and>
       dom (availabilitySeen (hd (scrapes s))) =
         {(''localhost'', ''3306'', ''db1''), (''localhost'', ''3307'', ''db2'')} \<and>
       card (dom (durationSeen (hd (scrapes s)))) = 2"
proof -
  have "\<exists>s. run scrapeAcrossTick (boot [db1, db2] 0) = Some s \<and> length (scrapes s) = 1 \<and>
          afterStart (hd (scrapes s)) \<and> phase s = Ticking"
    by (simp add: scrapeAcrossTick_def firstCycle_def exporter_defs started_def)
  then obtain s where r: "run scrapeAcrossTick (boot [db1, db2] 0) = Some s"
    and l: "length (scrapes s) = 1" and a: "afterStart (hd (scrapes s))" and p: "phase s = Ticking"
    by blast
  from l have "hd (scrapes s) \<in> set (scrapes s)" by (cases "scrapes s") auto
  moreover have "distinct (map labelsOf [db1, db2])"
    by (simp add: labelsOf_def db1_def db2_def)
  ultimately show ?thesis
    using Start_runs_first_cycle [OF r] r a p
    by (intro exI [of _ s]) (auto simp: labelsOf_def db1_def db2_def)
qed

text \<open>
  C2, as the code has it. \<^verbatim>\<open>performChecks\<close> holds the write lock from its first statement
  to its return: every call of \<^verbatim>\<open>CheckConnection\<close> of a cycle returns while the lock is
  held, the lock is released only when every goroutine of the cycle has finished, and while
  it is held no call of \<^verbatim>\<open>Collect\<close> can take the read lock.
\<close>

theorem performChecks_probes_under_write_lock:
  assumes "run sched (boot cfgs interval) = Some s"
  shows "(writer (mu s) \<longleftrightarrow> checker s \<noteq> Outside \<and> checker s \<noteq> AtLock) \<and>
         (\<forall>k err d s'. step (CheckConnectionReturns k err d) s = Some s' \<longrightarrow>
            writer (mu s) \<and> writer (mu s')) \<and>
         (writer (mu s) \<longrightarrow> (\<forall>r. step (RLock r) s = None)) \<and>
         (\<forall>s'. step Unlock s = Some s' \<longrightarrow> (\<forall>w\<in>set (workers s). w = Finished))"
proof -
  have inv: "lockInv s" using run_boot_Inv [OF assms] by (simp add: Inv_def)
  then have w: "writer (mu s) \<longleftrightarrow> checker s \<noteq> Outside \<and> checker s \<noteq> AtLock"
    by (simp add: lockInv_def)
  have "writer (mu s) \<and> writer (mu s')"
    if "step (CheckConnectionReturns k err d) s = Some s'" for k err d s'
    using stepE_CheckConnectionReturns [OF that] w by auto
  moreover have "\<forall>r. step (RLock r) s = None" if "writer (mu s)"
    using that by simp
  moreover have "\<forall>w\<in>set (workers s). w = Finished" if "step Unlock s = Some s'" for s'
    using stepE_Unlock [OF that] by simp
  ultimately show ?thesis using w by blast
qed

text \<open>The theorem in the state in which the goroutines of the first cycle have been launched.\<close>

theorem performChecks_probes_under_write_lock_witness:
  "\<exists>s. run untilProbes (boot [db1, db2] 0) = Some s \<and> writer (mu s) \<and>
       (\<forall>k err d s'. step (CheckConnectionReturns k err d) s = Some s' \<longrightarrow> writer (mu s')) \<and>
       (\<forall>r. step (RLock r) s = None)"
proof -
  have "\<exists>s. run untilProbes (boot [db1, db2] 0) = Some s \<and> writer (mu s)"
    by (simp add: untilProbes_def exporter_defs)
  then obtain s where r: "run untilProbes (boot [db1, db2] 0) = Some s" and w: "writer (mu s)"
    by blast
  show ?thesis
    using performChecks_probes_under_write_lock [OF r] r w by (intro exI [of _ s]) blast
qed

text \<open>
  C2, as the claim has it, fails: in that state the write lock is held, the call of
  \<^verbatim>\<open>CheckConnection\<close> for the first target is still to return, and \<^verbatim>\<open>RLock\<close> of a call of
  \<^verbatim>\<open>Collect\<close> cannot be taken.
\<close>

theorem probing_blocks_Collect_counterexample:
  "\<exists>s. run untilProbes (boot [db1, db2] 0) = Some s \<and> writer (mu s) \<and>
       step (CheckConnectionReturns 0 None 1000000) s \<noteq> None \<and>
       step (RLock 0) s = None"
  by (simp add: untilProbes_def exporter_defs)

end
